theory Spec2Isabelle
  imports Main "HOL-Library.Word" "HOL-Library.Multiset"
begin

section \<open>The namespace cache of shade (package fusefs, type Tree)\<close>

subsection \<open>Data model\<close>

text \<open>
  A Go byte slice is either \<open>nil\<close> or a sequence of bytes; \<open>None\<close> is the nil slice.
  \<open>Node.Synthetic\<close> tests the hash against nil, so the difference is kept.
\<close>

type_synonym slice = "8 word list option"

text \<open>\<open>string(b)\<close> of a byte slice: the nil slice and the empty slice give the same string.\<close>

definition string_of :: "slice \<Rightarrow> 8 word list" where
  "string_of b = (case b of None \<Rightarrow> [] | Some bs \<Rightarrow> bs)"

text \<open>
  A \<open>time.Time\<close> is an instant on the integer line; the zero value of the type is instant 0
  and instants before it exist. \<open>After\<close> is the strict order.
\<close>

type_synonym time = int

definition After :: "time \<Rightarrow> time \<Rightarrow> bool" where
  "After t u = (u < t)"

text \<open>
  The struct \<open>Node\<close>. \<open>Children\<close> is a Go map, a reference that may be nil:
  \<open>None\<close> is the nil map, on which a read gives the zero value and a write panics.
\<close>

record Node =
  Filename :: string
  Filesize :: "64 word"
  ModifiedTime :: time
  Sha256sum :: slice
  Children :: "(string \<rightharpoonup> bool) option"

text \<open>
  The fields of \<open>shade.File\<close> that \<open>Refresh\<close> reads. The struct and its JSON decoder
  are declared outside the files at hand, so the decoder is a parameter of the model.
  \<open>Filesize\<close> is an \<open>int64\<close>; the conversion \<open>uint64(file.Filesize)\<close> keeps the bits.
\<close>

record File =
  file_Filename :: string
  file_Filesize :: "64 word"
  file_ModifiedTime :: time

text \<open>
  What a \<open>drive.Client\<close> answers during one refresh pass: the result of \<open>ListFiles\<close>
  (\<open>None\<close> for an error) and, for each hash, the result of \<open>GetChunk\<close>
  (\<open>None\<close> for an error, otherwise the returned slice).
\<close>

record Client =
  ListFiles :: "slice list option"
  GetChunk :: "slice \<Rightarrow> slice option"

type_synonym decoder = "slice \<Rightarrow> File option"

text \<open>The field \<open>nodes\<close> of a \<open>Tree\<close>: the Go map from full path to \<open>Node\<close>.\<close>

type_synonym nodes = "string \<rightharpoonup> Node"

subsection \<open>Queries\<close>


text \<open>
  \<open>t.nodes[parent].Children[child]\<close>: a missing parent gives the zero \<open>Node\<close>, whose
  \<open>Children\<close> is nil; reading a nil map or a missing key gives \<open>false\<close>.
\<close>

definition HasChild :: "nodes \<Rightarrow> string \<Rightarrow> string \<Rightarrow> bool" where
  "HasChild t parent child =
     (case t parent of
        None \<Rightarrow> False
      | Some n \<Rightarrow>
          (case Children n of
             None \<Rightarrow> False
           | Some cs \<Rightarrow> (case cs child of None \<Rightarrow> False | Some b \<Rightarrow> b)))"

definition NumNodes :: "nodes \<Rightarrow> nat" where
  "NumNodes t = card (dom t)"


subsection \<open>Splitting a path\<close>

text \<open>
  \<open>path.Split\<close> cuts after the last slash: \<open>i := LastIndexByte(path, '/')\<close>, which is
  \<open>-1\<close> when there is none, and the result is \<open>path[:i+1], path[i+1:]\<close>.
\<close>

definition LastIndexByte :: "string \<Rightarrow> char \<Rightarrow> int" where
  "LastIndexByte s c =
     (if c \<in> set s then int (length s) - 1 - int (length (takeWhile (\<lambda>x. x \<noteq> c) (rev s)))
      else - 1)"

definition Split :: "string \<Rightarrow> string \<times> string" where
  "Split p = (let i = LastIndexByte p (CHR ''/'') in (take (nat (i + 1)) p, drop (nat (i + 1)) p))"

definition HasSuffix :: "string \<Rightarrow> string \<Rightarrow> bool" where
  "HasSuffix s suf = (length suf \<le> length s \<and> drop (length s - length suf) s = suf)"

definition TrimSuffix :: "string \<Rightarrow> string \<Rightarrow> string" where
  "TrimSuffix s suf = (if HasSuffix s suf then take (length s - length suf) s else s)"

text \<open>The first lines of \<open>addParents\<close>: the directory to register in, and the name to register.\<close>

definition parent_of :: "string \<Rightarrow> string \<times> string" where
  "parent_of filepath =
     (case Split filepath of
        (dir, f) \<Rightarrow> (if dir = [] then ''/'' else TrimSuffix dir ''/'', f))"

subsection \<open>Registering a path with its ancestors\<close>

text \<open>
  \<open>addParents\<close> works on the map in place. A missing parent is created with a fresh
  \<open>Children\<close> map; an existing one has the name stored in its \<open>Children\<close> map, which
  panics (\<open>None\<close> here) when that map is nil. No two entries of \<open>nodes\<close> share a
  \<open>Children\<close> map, so the write through the copy \<open>parent\<close> is a write to the entry.
\<close>

definition dir_node :: "string \<Rightarrow> (string \<rightharpoonup> bool) \<Rightarrow> Node" where
  "dir_node dir cs =
     \<lparr>Filename = dir, Filesize = 0, ModifiedTime = 0, Sha256sum = None, Children = Some cs\<rparr>"

definition register_child :: "nodes \<Rightarrow> string \<Rightarrow> string \<Rightarrow> nodes option" where
  "register_child t dir f =
     (case t dir of
        None \<Rightarrow> Some (t(dir \<mapsto> dir_node dir [f \<mapsto> True]))
      | Some parent \<Rightarrow>
          (case Children parent of
             None \<Rightarrow> None
           | Some cs \<Rightarrow> Some (t(dir \<mapsto> parent\<lparr>Children := Some (cs(f \<mapsto> True))\<rparr>))))"

function addParents :: "string \<Rightarrow> nodes \<Rightarrow> nodes option" where
  "addParents filepath t =
     (case parent_of filepath of
        (dir, f) \<Rightarrow>
          (case register_child t dir f of
             None \<Rightarrow> None
           | Some t' \<Rightarrow> if dir \<noteq> ''/'' then addParents dir t' else Some t'))"
  by pat_completeness auto

text \<open>The directories \<open>addParents\<close> visits for a path, nearest first; the last one is the root.\<close>

function ancestors :: "string \<Rightarrow> string list" where
  "ancestors filepath =
     (case parent_of filepath of
        (dir, f) \<Rightarrow> dir # (if dir \<noteq> ''/'' then ancestors dir else []))"
  by pat_completeness auto

text \<open>
  The registrations \<open>addParents\<close> makes for a path, nearest first: the directory and the
  name stored in its \<open>Children\<close> map; and a list of registrations carried out in turn.
\<close>

function chain :: "string \<Rightarrow> (string \<times> string) list" where
  "chain filepath =
     (case parent_of filepath of
        (dir, f) \<Rightarrow> (dir, f) # (if dir \<noteq> ''/'' then chain dir else []))"
  by pat_completeness auto

fun registers :: "(string \<times> string) list \<Rightarrow> nodes \<Rightarrow> nodes option" where
  "registers [] t = Some t"
| "registers ((dir, f) # rest) t =
     (case register_child t dir f of None \<Rightarrow> None | Some t' \<Rightarrow> registers rest t')"

subsection \<open>The refresh pass\<close>

definition node_of :: "File \<Rightarrow> slice \<Rightarrow> Node" where
  "node_of file sha256sum =
     \<lparr>Filename = file_Filename file, Filesize = file_Filesize file,
      ModifiedTime = file_ModifiedTime file, Sha256sum = sha256sum, Children = None\<rparr>"

text \<open>The test that discards a record: a node is there and it is strictly newer.\<close>

definition stale :: "nodes \<Rightarrow> Node \<Rightarrow> bool" where
  "stale t node =
     (case t (Filename node) of
        None \<Rightarrow> False
      | Some existing \<Rightarrow> After (ModifiedTime existing) (ModifiedTime node))"

text \<open>The two statements under the lock: the store into the map, then \<open>addParents\<close>.\<close>

definition install :: "Node \<Rightarrow> nodes \<Rightarrow> nodes option" where
  "install node t = addParents (Filename node) (t(Filename node \<mapsto> node))"

text \<open>One iteration of the loop for a node that was fetched and parsed.\<close>

definition step :: "Node \<Rightarrow> nodes \<Rightarrow> nodes option" where
  "step node t = (if stale t node then Some t else install node t)"

text \<open>The iterations for a list of nodes, one after the other; a panic ends them.\<close>

fun steps :: "Node list \<Rightarrow> nodes \<Rightarrow> nodes option" where
  "steps [] t = Some t"
| "steps (node # rest) t = (case step node t of None \<Rightarrow> None | Some t' \<Rightarrow> steps rest t')"

text \<open>The node an iteration builds for a hash, when the fetch and the parse both succeed.\<close>

definition fetched :: "decoder \<Rightarrow> Client \<Rightarrow> slice \<Rightarrow> Node option" where
  "fetched FromJSON client sha256sum =
     (case GetChunk client sha256sum of
        None \<Rightarrow> None
      | Some f \<Rightarrow>
          (case FromJSON f of None \<Rightarrow> None | Some file \<Rightarrow> Some (node_of file sha256sum)))"

text \<open>
  The loop over the listed hashes, with the pass-local set \<open>knownNodes\<close> (keyed by
  \<open>string(sha256sum)\<close>). \<open>None\<close> is the panic of \<open>addParents\<close>.
\<close>

fun refresh_loop ::
  "decoder \<Rightarrow> Client \<Rightarrow> slice list \<Rightarrow> 8 word list set \<Rightarrow> nodes \<Rightarrow> nodes option" where
  "refresh_loop FromJSON client [] knownNodes t = Some t"
| "refresh_loop FromJSON client (sha256sum # rest) knownNodes t =
     (if string_of sha256sum \<in> knownNodes then refresh_loop FromJSON client rest knownNodes t
      else
        (case GetChunk client sha256sum of
           None \<Rightarrow> refresh_loop FromJSON client rest knownNodes t
         | Some f \<Rightarrow>
             (case FromJSON f of
                None \<Rightarrow> refresh_loop FromJSON client rest knownNodes t
              | Some file \<Rightarrow>
                  (let node = node_of file sha256sum in
                   if stale t node then refresh_loop FromJSON client rest knownNodes t
                   else
                     (case install node t of
                        None \<Rightarrow> None
                      | Some t' \<Rightarrow>
                          refresh_loop FromJSON client rest
                            (insert (string_of sha256sum) knownNodes) t')))))"

text \<open>
  What a call of \<open>Refresh\<close> does: it returns nil with the map updated, it returns the
  error of \<open>ListFiles\<close> with the map untouched, or it panics.
\<close>

datatype outcome = Returned nodes | ListFilesFailed | Panicked

definition Refresh :: "decoder \<Rightarrow> Client \<Rightarrow> nodes \<Rightarrow> outcome" where
  "Refresh FromJSON client t =
     (case ListFiles client of
        None \<Rightarrow> ListFilesFailed
      | Some newFiles \<Rightarrow>
          (case refresh_loop FromJSON client newFiles {} t of
             None \<Rightarrow> Panicked
           | Some t' \<Rightarrow> Returned t'))"

definition root_node :: Node where
  "root_node = \<lparr>Filename = ''/'', Filesize = 0, ModifiedTime = 0, Sha256sum = None,
                Children = Some Map.empty\<rparr>"

definition initial_nodes :: nodes where
  "initial_nodes = [''/'' \<mapsto> root_node]"

text \<open>\<open>NewTree\<close>: the map with the root, then one \<open>Refresh\<close>, whose error fails the construction.\<close>

definition NewTree :: "decoder \<Rightarrow> Client \<Rightarrow> outcome" where
  "NewTree FromJSON client = Refresh FromJSON client initial_nodes"

text \<open>
  Later passes, one per tick of \<open>periodicRefresh\<close>, which drops the error of \<open>Refresh\<close>:
  a pass whose listing fails leaves the map as it was. A panic ends the run.
\<close>

fun refreshes :: "decoder \<Rightarrow> Client list \<Rightarrow> nodes \<Rightarrow> nodes option" where
  "refreshes FromJSON [] t = Some t"
| "refreshes FromJSON (client # clients) t =
     (case Refresh FromJSON client t of
        Returned t' \<Rightarrow> refreshes FromJSON clients t'
      | ListFilesFailed \<Rightarrow> refreshes FromJSON clients t
      | Panicked \<Rightarrow> None)"

subsection \<open>Notions the properties are stated with\<close>

text \<open>
  A path is linked when every directory on its way up registers the segment below it:
  the chain of \<open>HasChild\<close> answers from the path to the root.
\<close>

function linked :: "nodes \<Rightarrow> string \<Rightarrow> bool" where
  "linked t filepath =
     (case parent_of filepath of
        (dir, f) \<Rightarrow> HasChild t dir f \<and> (if dir \<noteq> ''/'' then linked t dir else True))"
  by pat_completeness auto

text \<open>
  One node is another grown: the same file data, and every name registered before is
  still registered. One map is below another when each of its nodes is there, grown.
\<close>

definition grown :: "Node \<Rightarrow> Node \<Rightarrow> bool" where
  "grown n n' =
     (Filename n' = Filename n \<and> Filesize n' = Filesize n \<and> ModifiedTime n' = ModifiedTime n \<and>
      Sha256sum n' = Sha256sum n \<and>
      (case Children n of
         None \<Rightarrow> Children n' = None
       | Some cs \<Rightarrow> (case Children n' of None \<Rightarrow> False | Some cs' \<Rightarrow> (\<forall>c. cs c = Some True \<longrightarrow> cs' c = Some True))))"

definition le_nodes :: "nodes \<Rightarrow> nodes \<Rightarrow> bool" where
  "le_nodes t t' = (\<forall>q n. t q = Some n \<longrightarrow> (\<exists>n'. t' q = Some n' \<and> grown n n'))"

text \<open>No path of the list is a directory on the way up from a path of the list.\<close>

definition no_collision :: "string list \<Rightarrow> bool" where
  "no_collision ps = (\<forall>p \<in> set ps. \<forall>q \<in> set ps. p \<notin> set (ancestors q))"

text \<open>The directories of a list of paths: the root and every directory above a path.\<close>

definition directories :: "string list \<Rightarrow> string set" where
  "directories ps = insert ''/'' (\<Union>p \<in> set ps. set (ancestors p))"

text \<open>The nodes a pass builds from a listing, in order, failed fetches and parses left out.\<close>

definition parsed :: "decoder \<Rightarrow> Client \<Rightarrow> slice list \<Rightarrow> Node list" where
  "parsed FromJSON client hs = List.map_filter (fetched FromJSON client) hs"

text \<open>The paths of the records of a pass, in the order of the listing.\<close>

definition paths_of :: "decoder \<Rightarrow> Client \<Rightarrow> string list" where
  "paths_of FromJSON client =
     (case ListFiles client of
        None \<Rightarrow> []
      | Some hs \<Rightarrow> map Filename (parsed FromJSON client hs))"

text \<open>
  Files and directories are separated in a map, for a set of record paths, when the nodes
  with a nil \<open>Children\<close> map are the nodes at the record paths, and every node but the root
  is linked.
\<close>

definition separated :: "string set \<Rightarrow> nodes \<Rightarrow> bool" where
  "separated P u =
     ((\<forall>q m. u q = Some m \<longrightarrow> (Children m = None \<longleftrightarrow> q \<in> P)) \<and>
      (\<forall>q. q \<in> dom u \<longrightarrow> q \<noteq> ''/'' \<longrightarrow> linked u q))"

text \<open>
  Two records are compatible when the order of their iterations cannot matter: for one path
  they differ in the modified time (or are the same node), for two paths neither is a
  directory above the other.
\<close>

definition compatible :: "Node \<Rightarrow> Node \<Rightarrow> bool" where
  "compatible n1 n2 =
     (if Filename n1 = Filename n2 then ModifiedTime n1 \<noteq> ModifiedTime n2 \<or> n1 = n2
      else Filename n1 \<notin> set (ancestors (Filename n2)) \<and>
           Filename n2 \<notin> set (ancestors (Filename n1)))"


text \<open>The map after a call that returned, and the node at a path in it.\<close>

fun result_nodes :: "outcome \<Rightarrow> nodes" where
  "result_nodes (Returned t) = t"
| "result_nodes ListFilesFailed = Map.empty"
| "result_nodes Panicked = Map.empty"

fun node_after :: "outcome \<Rightarrow> string \<Rightarrow> Node option" where
  "node_after (Returned t) p = t p"
| "node_after ListFilesFailed p = None"
| "node_after Panicked p = None"

subsection \<open>A small backend for concrete runs\<close>

text \<open>
  Six records, stored under the hashes \<open>[1]\<close> to \<open>[6]\<close>; the blob of a hash is the
  hash itself. Hash \<open>[9]\<close> cannot be fetched and the blob of hash \<open>[8]\<close> does not parse.
\<close>

definition demo_FromJSON :: decoder where
  "demo_FromJSON b =
     (if b = Some [1] then Some \<lparr>file_Filename = ''a'', file_Filesize = 10, file_ModifiedTime = 5\<rparr>
      else if b = Some [2] then Some \<lparr>file_Filename = ''a'', file_Filesize = 20, file_ModifiedTime = 5\<rparr>
      else if b = Some [3] then Some \<lparr>file_Filename = ''a'', file_Filesize = 30, file_ModifiedTime = 7\<rparr>
      else if b = Some [4] then Some \<lparr>file_Filename = ''a/b'', file_Filesize = 40, file_ModifiedTime = 1\<rparr>
      else if b = Some [5] then Some \<lparr>file_Filename = ''a/c'', file_Filesize = 50, file_ModifiedTime = 2\<rparr>
      else if b = Some [6] then Some \<lparr>file_Filename = ''d'', file_Filesize = 60, file_ModifiedTime = 3\<rparr>
      else None)"

definition demo_client :: "slice list \<Rightarrow> Client" where
  "demo_client hs =
     \<lparr>ListFiles = Some hs, GetChunk = (\<lambda>sha. if sha = Some [9] then None else Some sha)\<rparr>"

definition down_client :: Client where
  "down_client = \<lparr>ListFiles = None, GetChunk = (\<lambda>sha. None)\<rparr>"


text \<open>The tree built over the record \<open>a/b\<close>, and the one built over the first record of \<open>a\<close>.\<close>

definition tree_ab :: nodes where
  "tree_ab = result_nodes (NewTree demo_FromJSON (demo_client [Some [4]]))"

definition tree_a :: nodes where
  "tree_a = result_nodes (NewTree demo_FromJSON (demo_client [Some [1]]))"

section \<open>Properties\<close>

subsection \<open>Paths\<close>

lemma takeWhile_stops: "c \<in> set xs \<Longrightarrow> length (takeWhile (\<lambda>x. x \<noteq> c) xs) < length xs"
  by (induction xs) auto

lemma LastIndexByte_bounds: "- 1 \<le> LastIndexByte s c \<and> LastIndexByte s c < int (length s)"
proof (cases "c \<in> set s")
  case True
  then have "length (takeWhile (\<lambda>x. x \<noteq> c) (rev s)) < length (rev s)"
    by (intro takeWhile_stops) simp
  then show ?thesis using True by (simp add: LastIndexByte_def)
next
  case False
  then show ?thesis by (simp add: LastIndexByte_def)
qed

lemma LastIndexByte_hit:
  assumes "c \<in> set s"
  shows "s ! nat (LastIndexByte s c) = c" and "0 \<le> LastIndexByte s c"
proof -
  let ?k = "length (takeWhile (\<lambda>x. x \<noteq> c) (rev s))"
  from assms have k: "?k < length (rev s)"
    by (intro takeWhile_stops) simp
  then have "rev s ! ?k = c"
    using nth_length_takeWhile [of "\<lambda>x. x \<noteq> c" "rev s"] by simp
  moreover have "rev s ! ?k = s ! (length s - Suc ?k)"
    using k by (simp add: rev_nth)
  moreover have "nat (LastIndexByte s c) = length s - Suc ?k"
    using assms k by (simp add: LastIndexByte_def nat_diff_distrib)
  ultimately show "s ! nat (LastIndexByte s c) = c" by simp
  show "0 \<le> LastIndexByte s c" using assms k by (simp add: LastIndexByte_def)
qed

lemma parent_of_shorter:
  assumes "parent_of p = (d, f)" and "d \<noteq> ''/''"
  shows "length d < length p"
proof -
  let ?i = "LastIndexByte p (CHR ''/'')"
  let ?dir = "take (nat (?i + 1)) p"
  from assms have ne: "?dir \<noteq> []" and d: "d = TrimSuffix ?dir ''/''"
    by (auto simp: parent_of_def Split_def Let_def split: if_splits)
  from ne have slash: "CHR ''/'' \<in> set p"
    by (auto simp: LastIndexByte_def split: if_splits)
  have b: "0 \<le> ?i" "?i < int (length p)"
    using LastIndexByte_hit(2) [OF slash] LastIndexByte_bounds [of p "CHR ''/''"] by auto
  then have len: "length ?dir = nat ?i + 1" by (simp add: nat_add_distrib)
  have "?dir ! nat ?i = CHR ''/''"
    using LastIndexByte_hit(1) [OF slash] b by (simp add: nat_add_distrib)
  then have "last ?dir = CHR ''/''"
    using len ne by (simp add: last_conv_nth)
  then have "HasSuffix ?dir ''/''"
    using ne len by (cases ?dir rule: rev_cases) (auto simp: HasSuffix_def)
  then have "length d = nat ?i" using d len by (simp add: TrimSuffix_def)
  with b show ?thesis by linarith
qed

termination addParents
  by (relation "measure (\<lambda>(p, t). length p)") (auto dest: parent_of_shorter [OF sym])

termination ancestors
  by (relation "measure length") (auto dest: parent_of_shorter [OF sym])

termination linked
  by (relation "measure (\<lambda>(t, p). length p)") (auto dest: parent_of_shorter [OF sym])

termination chain
  by (relation "measure length") (auto dest: parent_of_shorter [OF sym])

declare addParents.simps [simp del] ancestors.simps [simp del] linked.simps [simp del]
  chain.simps [simp del]

text \<open>The equations that run the model on a concrete listing.\<close>

lemmas path_simps = parent_of_def Split_def LastIndexByte_def TrimSuffix_def HasSuffix_def

lemmas run_simps =
  NewTree_def Refresh_def demo_client_def demo_FromJSON_def down_client_def initial_nodes_def
  root_node_def install_def stale_def step_def fetched_def node_of_def addParents.simps
  register_child_def dir_node_def string_of_def After_def path_simps

subsection \<open>Registering children\<close>

lemma ancestors_unfold:
  "parent_of p = (d, f) \<Longrightarrow> ancestors p = d # (if d \<noteq> ''/'' then ancestors d else [])"
  by (subst ancestors.simps) simp

lemma addParents_unfold:
  "parent_of p = (d, f) \<Longrightarrow>
   addParents p t =
     (case register_child t d f of
        None \<Rightarrow> None
      | Some t' \<Rightarrow> if d \<noteq> ''/'' then addParents d t' else Some t')"
  by (subst addParents.simps) simp

lemma linked_unfold:
  "parent_of p = (d, f) \<Longrightarrow>
   linked t p = (HasChild t d f \<and> (if d \<noteq> ''/'' then linked t d else True))"
  by (subst linked.simps) simp

lemma ancestors_cases: "q \<in> set (ancestors p) \<Longrightarrow> q = ''/'' \<or> length q < length p"
proof (induction p rule: ancestors.induct)
  case (1 filepath)
  obtain dir f where pf: "parent_of filepath = (dir, f)" by (cases "parent_of filepath")
  show ?case
  proof (cases "dir = ''/''")
    case True
    with 1(2) pf show ?thesis by (simp add: ancestors_unfold [OF pf])
  next
    case False
    from pf False have sh: "length dir < length filepath" by (rule parent_of_shorter)
    from 1(2) pf False have "q = dir \<or> q \<in> set (ancestors dir)" by (simp add: ancestors_unfold [OF pf])
    then show ?thesis
    proof
      assume "q = dir"
      with sh show ?thesis by simp
    next
      assume "q \<in> set (ancestors dir)"
      from 1(1) [OF pf [symmetric] False this] sh show ?thesis by auto
    qed
  qed
qed

lemma root_in_ancestors: "''/'' \<in> set (ancestors p)"
proof (induction p rule: ancestors.induct)
  case (1 filepath)
  obtain dir f where pf: "parent_of filepath = (dir, f)" by (cases "parent_of filepath")
  show ?case
  proof (cases "dir = ''/''")
    case True
    with pf show ?thesis by (simp add: ancestors_unfold [OF pf])
  next
    case False
    with 1 [OF pf [symmetric] False] pf show ?thesis by (simp add: ancestors_unfold [OF pf])
  qed
qed

lemma not_own_ancestor: "p \<noteq> ''/'' \<Longrightarrow> p \<notin> set (ancestors p)"
  using ancestors_cases [of p p] by auto


lemma grown_refl: "grown n n"
  by (simp add: grown_def split: option.splits)

lemma grown_trans: "grown a b \<Longrightarrow> grown b c \<Longrightarrow> grown a c"
  by (auto simp: grown_def split: option.splits)

lemma le_nodes_refl: "le_nodes t t"
  by (auto simp: le_nodes_def grown_refl)

lemma le_nodes_trans: "le_nodes a b \<Longrightarrow> le_nodes b c \<Longrightarrow> le_nodes a c"
  unfolding le_nodes_def by (meson grown_trans)

lemma HasChild_mono: "le_nodes t t' \<Longrightarrow> HasChild t d f \<Longrightarrow> HasChild t' d f"
  unfolding le_nodes_def HasChild_def grown_def
  by (fastforce split: option.splits)

lemma register_child_None:
  "register_child t d f = None \<longleftrightarrow> (\<exists>n. t d = Some n \<and> Children n = None)"
  by (auto simp: register_child_def split: option.splits)

lemma register_child_other: "register_child t d f = Some t' \<Longrightarrow> q \<noteq> d \<Longrightarrow> t' q = t q"
  by (auto simp: register_child_def split: option.splits)

lemma register_child_dom: "register_child t d f = Some t' \<Longrightarrow> dom t' = insert d (dom t)"
  by (auto simp: register_child_def split: option.splits)

lemma register_child_HasChild: "register_child t d f = Some t' \<Longrightarrow> HasChild t' d f"
  by (auto simp: register_child_def HasChild_def dir_node_def split: option.splits)

lemma register_child_at:
  "register_child t d f = Some t' \<Longrightarrow> t d = Some n \<Longrightarrow>
   \<exists>cs. Children n = Some cs \<and> t' d = Some (n\<lparr>Children := Some (cs(f \<mapsto> True))\<rparr>)"
  by (auto simp: register_child_def split: option.splits)

lemma register_child_le: "register_child t d f = Some t' \<Longrightarrow> le_nodes t t'"
  unfolding le_nodes_def
proof (intro allI impI)
  fix q n
  assume rc: "register_child t d f = Some t'" and q: "t q = Some n"
  show "\<exists>n'. t' q = Some n' \<and> grown n n'"
  proof (cases "q = d")
    case True
    with register_child_at [OF rc] q obtain cs where
      "Children n = Some cs" "t' q = Some (n\<lparr>Children := Some (cs(f \<mapsto> True))\<rparr>)"
      by auto
    then show ?thesis by (auto simp: grown_def)
  next
    case False
    with register_child_other [OF rc] q show ?thesis by (simp add: grown_refl)
  qed
qed

lemma register_child_new:
  "register_child t d f = Some t' \<Longrightarrow> t q = None \<Longrightarrow> t' q = Some n \<Longrightarrow> n = dir_node q [f \<mapsto> True]"
  by (auto simp: register_child_def split: option.splits if_splits)

lemma addParents_le: "addParents p t = Some t' \<Longrightarrow> le_nodes t t'"
proof (induction p t rule: addParents.induct)
  case (1 filepath t)
  obtain dir f where pf: "parent_of filepath = (dir, f)" by (cases "parent_of filepath")
  from 1(2) pf obtain t1 where rc: "register_child t dir f = Some t1"
    by (auto simp: addParents_unfold [OF pf] split: option.splits)
  show ?case
  proof (cases "dir = ''/''")
    case True
    with 1(2) pf rc have "t' = t1" by (simp add: addParents_unfold [OF pf])
    with rc show ?thesis by (simp add: register_child_le)
  next
    case False
    with 1(2) pf rc have "addParents dir t1 = Some t'" by (simp add: addParents_unfold [OF pf])
    from 1(1) [OF pf [symmetric] rc False this] register_child_le [OF rc]
    show ?thesis by (rule le_nodes_trans [rotated])
  qed
qed

lemma addParents_dom: "addParents p t = Some t' \<Longrightarrow> dom t' = dom t \<union> set (ancestors p)"
proof (induction p t rule: addParents.induct)
  case (1 filepath t)
  obtain dir f where pf: "parent_of filepath = (dir, f)" by (cases "parent_of filepath")
  from 1(2) pf obtain t1 where rc: "register_child t dir f = Some t1"
    by (auto simp: addParents_unfold [OF pf] split: option.splits)
  show ?case
  proof (cases "dir = ''/''")
    case True
    with 1(2) pf rc have "t' = t1" by (simp add: addParents_unfold [OF pf])
    with rc pf True show ?thesis by (simp add: register_child_dom ancestors_unfold [OF pf])
  next
    case False
    with 1(2) pf rc have "addParents dir t1 = Some t'" by (simp add: addParents_unfold [OF pf])
    from 1(1) [OF pf [symmetric] rc False this] register_child_dom [OF rc] pf False
    show ?thesis by (simp add: ancestors_unfold [OF pf])
  qed
qed

lemma addParents_other: "addParents p t = Some t' \<Longrightarrow> q \<notin> set (ancestors p) \<Longrightarrow> t' q = t q"
proof (induction p t rule: addParents.induct)
  case (1 filepath t)
  obtain dir f where pf: "parent_of filepath = (dir, f)" by (cases "parent_of filepath")
  from 1(2) pf obtain t1 where rc: "register_child t dir f = Some t1"
    by (auto simp: addParents_unfold [OF pf] split: option.splits)
  from 1(3) pf have qd: "q \<noteq> dir" by (auto simp: ancestors_unfold [OF pf])
  show ?case
  proof (cases "dir = ''/''")
    case True
    with 1(2) pf rc have "t' = t1" by (simp add: addParents_unfold [OF pf])
    with rc qd show ?thesis by (simp add: register_child_other)
  next
    case False
    with 1(2) pf rc have ap: "addParents dir t1 = Some t'" by (simp add: addParents_unfold [OF pf])
    from 1(3) pf False have "q \<notin> set (ancestors dir)" by (simp add: ancestors_unfold [OF pf])
    from 1(1) [OF pf [symmetric] rc False ap this] register_child_other [OF rc qd]
    show ?thesis by simp
  qed
qed

lemma addParents_new:
  "addParents p t = Some t' \<Longrightarrow> t q = None \<Longrightarrow> t' q = Some n \<Longrightarrow> \<exists>cs. n = dir_node q cs"
proof (induction p t arbitrary: n rule: addParents.induct)
  case (1 filepath t)
  obtain dir f where pf: "parent_of filepath = (dir, f)" by (cases "parent_of filepath")
  from 1(2) pf obtain t1 where rc: "register_child t dir f = Some t1"
    by (auto simp: addParents_unfold [OF pf] split: option.splits)
  show ?case
  proof (cases "dir = ''/''")
    case True
    with 1(2) pf rc have "t' = t1" by (simp add: addParents_unfold [OF pf])
    with rc 1(3,4) show ?thesis by (auto dest: register_child_new)
  next
    case False
    with 1(2) pf rc have ap: "addParents dir t1 = Some t'" by (simp add: addParents_unfold [OF pf])
    show ?thesis
    proof (cases "t1 q")
      case None
      from 1(1) [OF pf [symmetric] rc False ap None 1(4)] show ?thesis .
    next
      case (Some m)
      with rc 1(3) have m: "m = dir_node q [f \<mapsto> True]" by (auto dest: register_child_new)
      from addParents_le [OF ap] Some obtain n' where "t' q = Some n'" "grown m n'"
        by (auto simp: le_nodes_def)
      with 1(4) m have "grown (dir_node q [f \<mapsto> True]) n" by simp
      then have "n = dir_node q (the (Children n))"
        by (cases n) (auto simp: grown_def dir_node_def split: option.splits)
      then show ?thesis by blast
    qed
  qed
qed

lemma addParents_None_iff:
  "addParents p t = None \<longleftrightarrow> (\<exists>d \<in> set (ancestors p). \<exists>n. t d = Some n \<and> Children n = None)"
proof (induction p t rule: addParents.induct)
  case (1 filepath t)
  obtain dir f where pf: "parent_of filepath = (dir, f)" by (cases "parent_of filepath")
  show ?case
  proof (cases "register_child t dir f")
    case None
    then have "addParents filepath t = None" using pf by (simp add: addParents_unfold [OF pf])
    moreover from None obtain n where "t dir = Some n" "Children n = None"
      by (auto simp: register_child_None)
    moreover have "dir \<in> set (ancestors filepath)" using pf by (simp add: ancestors_unfold [OF pf])
    ultimately show ?thesis by blast
  next
    case (Some t1)
    then have ok: "\<not> (\<exists>n. t dir = Some n \<and> Children n = None)"
      using register_child_None [of t dir f] by simp
    show ?thesis
    proof (cases "dir = ''/''")
      case True
      with Some pf ok show ?thesis by (simp add: addParents_unfold [OF pf] ancestors_unfold [OF pf])
    next
      case False
      have anc: "ancestors filepath = dir # ancestors dir"
        using pf False by (simp add: ancestors_unfold [OF pf])
      have eq: "addParents filepath t = addParents dir t1"
        using pf False Some by (simp add: addParents_unfold [OF pf])
      have "\<And>d. d \<in> set (ancestors dir) \<Longrightarrow> t1 d = t d"
      proof -
        fix d assume "d \<in> set (ancestors dir)"
        then have "d = ''/'' \<or> length d < length dir" by (rule ancestors_cases)
        with False have "d \<noteq> dir" by auto
        with Some show "t1 d = t d" by (rule register_child_other)
      qed
      then have "(\<exists>d \<in> set (ancestors dir). \<exists>n. t1 d = Some n \<and> Children n = None)
        \<longleftrightarrow> (\<exists>d \<in> set (ancestors dir). \<exists>n. t d = Some n \<and> Children n = None)"
        by auto
      with 1 [OF pf [symmetric] Some False] eq anc ok show ?thesis by auto
    qed
  qed
qed

lemma linked_mono: "le_nodes t t' \<Longrightarrow> linked t p \<Longrightarrow> linked t' p"
proof (induction t p rule: linked.induct)
  case (1 t filepath)
  obtain dir f where pf: "parent_of filepath = (dir, f)" by (cases "parent_of filepath")
  show ?case
  proof (cases "dir = ''/''")
    case True
    with 1(2,3) pf show ?thesis by (auto simp: linked_unfold [OF pf] dest: HasChild_mono)
  next
    case False
    with 1(3) pf have "HasChild t dir f" "linked t dir" by (auto simp: linked_unfold [OF pf])
    with 1(1) [OF pf [symmetric] False 1(2)] 1(2) pf False show ?thesis
      by (auto simp: linked_unfold [OF pf] dest: HasChild_mono)
  qed
qed

lemma addParents_linked: "addParents p t = Some t' \<Longrightarrow> linked t' p"
proof (induction p t rule: addParents.induct)
  case (1 filepath t)
  obtain dir f where pf: "parent_of filepath = (dir, f)" by (cases "parent_of filepath")
  from 1(2) pf obtain t1 where rc: "register_child t dir f = Some t1"
    by (auto simp: addParents_unfold [OF pf] split: option.splits)
  show ?case
  proof (cases "dir = ''/''")
    case True
    with 1(2) pf rc have "t' = t1" by (simp add: addParents_unfold [OF pf])
    with rc pf True show ?thesis by (simp add: linked_unfold [OF pf] register_child_HasChild)
  next
    case False
    with 1(2) pf rc have ap: "addParents dir t1 = Some t'" by (simp add: addParents_unfold [OF pf])
    have "HasChild t' dir f"
      using addParents_le [OF ap] register_child_HasChild [OF rc] by (rule HasChild_mono)
    with 1(1) [OF pf [symmetric] rc False ap] pf False show ?thesis
      by (simp add: linked_unfold [OF pf])
  qed
qed

subsection \<open>Installing a node\<close>

lemma node_of_simps [simp]:
  "Filename (node_of file sha) = file_Filename file"
  "Filesize (node_of file sha) = file_Filesize file"
  "ModifiedTime (node_of file sha) = file_ModifiedTime file"
  "Sha256sum (node_of file sha) = sha"
  "Children (node_of file sha) = None"
  by (simp_all add: node_of_def)

lemma fetched_Children: "fetched D c h = Some n \<Longrightarrow> Children n = None"
  by (auto simp: fetched_def split: option.splits)


lemma install_not_root:
  assumes "Children node = None" and "install node t = Some t'"
  shows "Filename node \<notin> set (ancestors (Filename node))" and "Filename node \<noteq> ''/''"
proof -
  let ?p = "Filename node"
  show 1: "?p \<notin> set (ancestors ?p)"
  proof
    assume "?p \<in> set (ancestors ?p)"
    then have "\<exists>d \<in> set (ancestors ?p). \<exists>n. (t(?p \<mapsto> node)) d = Some n \<and> Children n = None"
      using assms(1) by (intro bexI [of _ ?p]) auto
    then have "addParents ?p (t(?p \<mapsto> node)) = None" by (simp add: addParents_None_iff)
    with assms(2) show False by (simp add: install_def)
  qed
  from 1 root_in_ancestors [of ?p] show "?p \<noteq> ''/''" by metis
qed

lemma install_at:
  assumes "Children node = None" and "install node t = Some t'"
  shows "t' (Filename node) = Some node"
  using addParents_other [of "Filename node" "t(Filename node \<mapsto> node)" t' "Filename node"]
    install_not_root(1) [OF assms] assms(2)
  by (simp add: install_def)

lemma install_dom:
  "install node t = Some t' \<Longrightarrow>
   dom t' = insert (Filename node) (dom t) \<union> set (ancestors (Filename node))"
  using addParents_dom [of "Filename node" "t(Filename node \<mapsto> node)" t']
  by (simp add: install_def)

lemma install_other:
  "install node t = Some t' \<Longrightarrow> q \<noteq> Filename node \<Longrightarrow> q \<notin> set (ancestors (Filename node)) \<Longrightarrow>
   t' q = t q"
  by (auto simp: install_def dest!: addParents_other [where q = q])

lemma install_grown:
  assumes "install node t = Some t'" and "q \<noteq> Filename node" and "t q = Some n"
  shows "\<exists>n'. t' q = Some n' \<and> grown n n'"
proof -
  from assms(1) have "le_nodes (t(Filename node \<mapsto> node)) t'"
    by (simp add: install_def addParents_le)
  with assms(2,3) show ?thesis by (auto simp: le_nodes_def)
qed

lemma install_new:
  assumes "install node t = Some t'" and "q \<noteq> Filename node" and "t q = None" and "t' q = Some n"
  shows "\<exists>cs. n = dir_node q cs"
  using addParents_new [of "Filename node" "t(Filename node \<mapsto> node)" t' q n] assms
  by (simp add: install_def)

lemma install_linked: "install node t = Some t' \<Longrightarrow> linked t' (Filename node)"
  by (simp add: install_def addParents_linked)

lemma install_None_iff:
  "install node t = None \<longleftrightarrow>
     (\<exists>d \<in> set (ancestors (Filename node)). \<exists>n. (t(Filename node \<mapsto> node)) d = Some n \<and> Children n = None)"
  by (simp add: install_def addParents_None_iff)

text \<open>An invariant of the installed states is an invariant of the loop.\<close>

lemma refresh_loop_invariant:
  assumes "refresh_loop D c hs known t = Some t'" and "P t"
    and "\<And>h node u u'. h \<in> set hs \<Longrightarrow> fetched D c h = Some node \<Longrightarrow> P u \<Longrightarrow> \<not> stale u node \<Longrightarrow>
           install node u = Some u' \<Longrightarrow> P u'"
  shows "P t'"
  using assms
proof (induction hs arbitrary: known t)
  case Nil
  then show ?case by simp
next
  case (Cons h hs)
  have step: "\<And>h' node u u'. h' \<in> set hs \<Longrightarrow> fetched D c h' = Some node \<Longrightarrow> P u \<Longrightarrow>
      \<not> stale u node \<Longrightarrow> install node u = Some u' \<Longrightarrow> P u'"
    using Cons.prems(3) by auto
  show ?case
  proof (cases "string_of h \<in> known \<or> fetched D c h = None")
    case True
    then have "refresh_loop D c (h # hs) known t = refresh_loop D c hs known t"
      by (auto simp: fetched_def split: option.splits)
    with Cons.prems(1) Cons.IH [OF _ Cons.prems(2) step] show ?thesis by simp
  next
    case False
    then obtain node where f: "fetched D c h = Some node" and k: "string_of h \<notin> known" by auto
    show ?thesis
    proof (cases "stale t node")
      case True
      with f k have "refresh_loop D c (h # hs) known t = refresh_loop D c hs known t"
        by (auto simp: fetched_def Let_def split: option.splits)
      with Cons.prems(1) Cons.IH [OF _ Cons.prems(2) step] show ?thesis by simp
    next
      case False
      with f k Cons.prems(1) obtain u where
        i: "install node t = Some u" and
        r: "refresh_loop D c hs (insert (string_of h) known) u = Some t'"
        by (auto simp: fetched_def Let_def split: option.splits)
      have "P u" using Cons.prems(3) [OF _ f Cons.prems(2) False i] by simp
      from Cons.IH [OF r this step] show ?thesis by simp
    qed
  qed
qed


lemma refresh_loop_dom:
  assumes "refresh_loop D c hs known t = Some t'"
  shows "dom t \<subseteq> dom t' \<and> (finite (dom t) \<longrightarrow> finite (dom t'))"
proof -
  have "dom t \<subseteq> dom t' \<and> (finite (dom t) \<longrightarrow> finite (dom t'))"
  proof (rule refresh_loop_invariant [OF assms, where P = "\<lambda>u. dom t \<subseteq> dom u \<and> (finite (dom t) \<longrightarrow> finite (dom u))"])
    show "dom t \<subseteq> dom t \<and> (finite (dom t) \<longrightarrow> finite (dom t))" by simp
  next
    fix h node u u'
    assume "dom t \<subseteq> dom u \<and> (finite (dom t) \<longrightarrow> finite (dom u))" "install node u = Some u'"
    then show "dom t \<subseteq> dom u' \<and> (finite (dom t) \<longrightarrow> finite (dom u'))"
      by (auto simp: install_dom)
  qed
  then show ?thesis .
qed

subsection \<open>Errors of a pass\<close>

lemma refresh_loop_single:
  "refresh_loop D c [h] {} t = (case fetched D c h of None \<Rightarrow> Some t | Some node \<Rightarrow> step node t)"
  by (auto simp: fetched_def step_def Let_def split: option.splits)


lemma fetched_client: "fetched D (c\<lparr>ListFiles := l\<rparr>) = fetched D c"
  by (rule ext) (simp add: fetched_def)



text \<open>
  Claim C5. A pass over two well-formed records, the file \<open>a\<close> and then the file \<open>a/b\<close>,
  does not run to completion: registering \<open>b\<close> under \<open>a\<close> writes into the nil
  \<open>Children\<close> map of the file node, and the pass panics.
\<close>

theorem colliding_record_panics:
  "NewTree demo_FromJSON (demo_client [Some [1], Some [4]]) = Panicked"
  by (simp add: run_simps)

subsection \<open>Nodes are never removed\<close>

lemma refresh_loop_root:
  "refresh_loop D c hs known t = Some t' \<Longrightarrow> p \<in> dom t \<Longrightarrow> p \<in> dom t'"
  using refresh_loop_dom [of D c hs known t t'] by auto

lemma Refresh_dom:
  assumes "Refresh D c t = Returned t'"
  shows "dom t \<subseteq> dom t'" and "finite (dom t) \<Longrightarrow> finite (dom t')"
proof -
  from assms obtain hs where "refresh_loop D c hs {} t = Some t'"
    by (auto simp: Refresh_def split: option.splits)
  from refresh_loop_dom [OF this]
  show "dom t \<subseteq> dom t'" and "finite (dom t) \<Longrightarrow> finite (dom t')" by auto
qed

lemma refreshes_dom:
  "refreshes D cs t = Some t' \<Longrightarrow> dom t \<subseteq> dom t' \<and> (finite (dom t) \<longrightarrow> finite (dom t'))"
proof (induction cs arbitrary: t)
  case Nil
  then show ?case by simp
next
  case (Cons c cs)
  show ?case
  proof (cases "Refresh D c t")
    case (Returned u)
    with Cons.prems have "refreshes D cs u = Some t'" by simp
    from Cons.IH [OF this] Refresh_dom [OF Returned] show ?thesis by auto
  next
    case ListFilesFailed
    with Cons.prems have "refreshes D cs t = Some t'" by simp
    from Cons.IH [OF this] show ?thesis .
  next
    case Panicked
    with Cons.prems show ?thesis by simp
  qed
qed

lemma initial_nodes_dom: "dom initial_nodes = {''/''}"
  by (simp add: initial_nodes_def)

lemma NewTree_dom:
  assumes "NewTree D c = Returned t"
  shows "''/'' \<in> dom t" and "finite (dom t)"
  using Refresh_dom [of D c initial_nodes t] assms by (auto simp: NewTree_def initial_nodes_dom)

text \<open>
  Claim C8. In the tree that \<open>NewTree\<close> returns the root path is a node. From there on, over
  any passes (those whose listing fails included), every path that is a node stays one, so
  the root is never removed and \<open>NumNodes\<close> never decreases. The queries compute from the
  map and leave it as it is.
\<close>

theorem nodes_never_removed:
  assumes "NewTree D c = Returned t0"
    and "refreshes D cs1 t0 = Some t1"
    and "refreshes D cs2 t1 = Some t2"
  shows "''/'' \<in> dom t0 \<and> ''/'' \<in> dom t1 \<and> dom t1 \<subseteq> dom t2 \<and> NumNodes t1 \<le> NumNodes t2"
proof -
  from NewTree_dom [OF assms(1)] have r: "''/'' \<in> dom t0" and f0: "finite (dom t0)" by auto
  from refreshes_dom [OF assms(2)] r f0 have r1: "''/'' \<in> dom t1" and f1: "finite (dom t1)" by auto
  from refreshes_dom [OF assms(3)] f1 have s: "dom t1 \<subseteq> dom t2" and f2: "finite (dom t2)" by auto
  from s f2 have "card (dom t1) \<le> card (dom t2)" by (rule card_mono [rotated])
  with r r1 s show ?thesis by (simp add: NumNodes_def)
qed

theorem nodes_never_removed_witness:
  "NewTree demo_FromJSON (demo_client [Some [4]]) = Returned tree_ab \<and>
   refreshes demo_FromJSON [] tree_ab = Some tree_ab \<and>
   refreshes demo_FromJSON [demo_client [Some [6]], down_client, demo_client []] tree_ab
     = Some (result_nodes (Refresh demo_FromJSON (demo_client [Some [6]]) tree_ab)) \<and>
   ''/'' \<in> dom tree_ab \<and>
   dom tree_ab \<subseteq> dom (result_nodes (Refresh demo_FromJSON (demo_client [Some [6]]) tree_ab)) \<and>
   NumNodes tree_ab \<le> NumNodes (result_nodes (Refresh demo_FromJSON (demo_client [Some [6]]) tree_ab)) \<and>
   NumNodes tree_ab = 3 \<and>
   NumNodes (result_nodes (Refresh demo_FromJSON (demo_client [Some [6]]) tree_ab)) = 4"
proof -
  let ?u = "result_nodes (Refresh demo_FromJSON (demo_client [Some [6]]) tree_ab)"
  have a: "NewTree demo_FromJSON (demo_client [Some [4]]) = Returned tree_ab"
    by (simp add: tree_ab_def run_simps)
  have b: "refreshes demo_FromJSON [] tree_ab = Some tree_ab" by simp
  have c: "refreshes demo_FromJSON [demo_client [Some [6]], down_client, demo_client []] tree_ab = Some ?u"
    by (simp add: tree_ab_def run_simps)
  have n1: "NumNodes tree_ab = 3" by (simp add: tree_ab_def run_simps NumNodes_def)
  have n2: "NumNodes ?u = 4" by (simp add: tree_ab_def run_simps NumNodes_def)
  from nodes_never_removed [OF a b c] a b c n1 n2 show ?thesis by simp
qed

subsection \<open>What one iteration does to a node\<close>

lemma step_cases:
  assumes "step node t = Some t'"
  obtains (skipped) "stale t node" "t' = t" | (installed) "\<not> stale t node" "install node t = Some t'"
  using assms by (auto simp: step_def split: if_splits)

lemma nil_children_install:
  assumes "Children node = None" and "install node u = Some u'"
    and "u p = Some n" and "Children n = None"
  shows "\<exists>n'. u' p = Some n' \<and> Children n' = None"
proof (cases "p = Filename node")
  case True
  with install_at [OF assms(1,2)] assms(1) show ?thesis by simp
next
  case False
  from install_grown [OF assms(2) False assms(3)] assms(4) show ?thesis
    by (auto simp: grown_def)
qed

lemma nil_children_loop:
  assumes "refresh_loop D c hs known t = Some t'" and "\<exists>n. t p = Some n \<and> Children n = None"
  shows "\<exists>n. t' p = Some n \<and> Children n = None"
proof (rule refresh_loop_invariant [OF assms(1), where P = "\<lambda>u. \<exists>n. u p = Some n \<and> Children n = None"])
  show "\<exists>n. t p = Some n \<and> Children n = None" by (rule assms(2))
next
  fix h node u u'
  assume "fetched D c h = Some node" "\<exists>n. u p = Some n \<and> Children n = None" "install node u = Some u'"
  then show "\<exists>n. u' p = Some n \<and> Children n = None"
    using nil_children_install [of node u u' p] by (auto dest: fetched_Children)
qed

lemma nil_children_refreshes:
  "refreshes D cs t = Some t' \<Longrightarrow> \<exists>n. t p = Some n \<and> Children n = None \<Longrightarrow>
   \<exists>n. t' p = Some n \<and> Children n = None"
proof (induction cs arbitrary: t)
  case Nil
  then show ?case by simp
next
  case (Cons c cs)
  show ?case
  proof (cases "Refresh D c t")
    case (Returned u)
    then obtain hs where "refresh_loop D c hs {} t = Some u"
      by (auto simp: Refresh_def split: option.splits)
    from nil_children_loop [OF this Cons.prems(2)] Cons.IH [of u] Cons.prems(1) Returned
    show ?thesis by simp
  next
    case ListFilesFailed
    with Cons show ?thesis by simp
  next
    case Panicked
    with Cons.prems show ?thesis by simp
  qed
qed

lemma nil_children_no_child: "t p = Some n \<Longrightarrow> Children n = None \<Longrightarrow> \<not> HasChild t p child"
  by (simp add: HasChild_def)

text \<open>
  Claim C10. When an iteration installs the node built from a parsed record (the record is
  not discarded as stale, and the iteration does not panic), the entry at the record's path
  is that node, whose \<open>Children\<close> map is nil. \<open>HasChild\<close> for that path then answers false
  for every name, whatever was registered there before, and keeps answering false after any
  later passes; the nodes that were in the map are all still in it.
\<close>

theorem installed_record_drops_children:
  assumes "fetched D c h = Some node" and "\<not> stale t node" and "step node t = Some t'"
  shows "t' (Filename node) = Some node \<and> Children node = None \<and>
         (\<forall>child. \<not> HasChild t' (Filename node) child) \<and>
         dom t \<subseteq> dom t' \<and>
         (\<forall>cs t'' child. refreshes D cs t' = Some t'' \<longrightarrow> \<not> HasChild t'' (Filename node) child)"
proof -
  from assms(1) have nil: "Children node = None" by (rule fetched_Children)
  from assms(2,3) have i: "install node t = Some t'" by (simp add: step_def)
  from install_at [OF nil i] have at: "t' (Filename node) = Some node" .
  have later: "\<not> HasChild t'' (Filename node) child" if "refreshes D cs t' = Some t''" for cs t'' child
  proof -
    from nil_children_refreshes [OF that, of "Filename node"] at nil
    obtain n where "t'' (Filename node) = Some n" "Children n = None" by auto
    then show ?thesis by (rule nil_children_no_child)
  qed
  from install_dom [OF i] have "dom t \<subseteq> dom t'" by auto
  with at nil later show ?thesis by (auto simp: nil_children_no_child)
qed

theorem installed_record_drops_children_witness:
  "fetched demo_FromJSON (demo_client [Some [1]]) (Some [1])
     = Some (node_of \<lparr>file_Filename = ''a'', file_Filesize = 10, file_ModifiedTime = 5\<rparr> (Some [1])) \<and>
   \<not> stale tree_ab (node_of \<lparr>file_Filename = ''a'', file_Filesize = 10, file_ModifiedTime = 5\<rparr> (Some [1])) \<and>
   HasChild tree_ab ''a'' ''b'' \<and>
   Refresh demo_FromJSON (demo_client [Some [1]]) tree_ab
     = Returned (result_nodes (Refresh demo_FromJSON (demo_client [Some [1]]) tree_ab)) \<and>
   \<not> HasChild (result_nodes (Refresh demo_FromJSON (demo_client [Some [1]]) tree_ab)) ''a'' ''b'' \<and>
   ''a/b'' \<in> dom (result_nodes (Refresh demo_FromJSON (demo_client [Some [1]]) tree_ab))"
proof -
  let ?node = "node_of \<lparr>file_Filename = ''a'', file_Filesize = 10, file_ModifiedTime = 5\<rparr> (Some [1])"
  let ?u = "result_nodes (Refresh demo_FromJSON (demo_client [Some [1]]) tree_ab)"
  have f: "fetched demo_FromJSON (demo_client [Some [1]]) (Some [1]) = Some ?node"
    by (simp add: fetched_def demo_client_def demo_FromJSON_def)
  have s: "\<not> stale tree_ab ?node" by (simp add: tree_ab_def run_simps)
  have st: "step ?node tree_ab = Some ?u" by (simp add: tree_ab_def run_simps)
  have r: "Refresh demo_FromJSON (demo_client [Some [1]]) tree_ab = Returned ?u"
    by (simp add: tree_ab_def run_simps)
  have b: "HasChild tree_ab ''a'' ''b''" by (simp add: tree_ab_def run_simps HasChild_def)
  have d: "''a/b'' \<in> dom tree_ab" by (simp add: tree_ab_def run_simps)
  from installed_record_drops_children [OF f s st]
  have "\<not> HasChild ?u ''a'' ''b''" and "dom tree_ab \<subseteq> dom ?u" by auto
  with f s r b d show ?thesis by auto
qed

text \<open>
  Claim C1, as the code has it. An iteration leaves a node in place with its content hash and
  modified time, unless the incoming record is for the node's own path and the node is not
  strictly later than the record: then the record's node replaces it. So a record with an
  equal modified time replaces the node; only a strictly earlier one is discarded.
\<close>

theorem record_replaces_unless_older:
  assumes "fetched D c h = Some node" and "step node t = Some t'" and "t p = Some n"
  shows "if p = Filename node \<and> ModifiedTime n \<le> ModifiedTime node then t' p = Some node
         else (\<exists>n'. t' p = Some n' \<and> Sha256sum n' = Sha256sum n \<and> ModifiedTime n' = ModifiedTime n)"
proof -
  from assms(1) have nil: "Children node = None" by (rule fetched_Children)
  from assms(2) show ?thesis
  proof (cases rule: step_cases)
    case skipped
    with assms(3) show ?thesis by (auto simp: stale_def After_def)
  next
    case installed
    show ?thesis
    proof (cases "p = Filename node")
      case True
      with installed(1) assms(3) have "ModifiedTime n \<le> ModifiedTime node"
        by (simp add: stale_def After_def)
      with True install_at [OF nil installed(2)] show ?thesis by simp
    next
      case False
      from install_grown [OF installed(2) False assms(3)] False show ?thesis
        by (auto simp: grown_def)
    qed
  qed
qed

theorem record_replaces_unless_older_witness:
  "fetched demo_FromJSON (demo_client [Some [2]]) (Some [2])
     = Some (node_of \<lparr>file_Filename = ''a'', file_Filesize = 20, file_ModifiedTime = 5\<rparr> (Some [2])) \<and>
   tree_a ''a'' = Some (node_of \<lparr>file_Filename = ''a'', file_Filesize = 10, file_ModifiedTime = 5\<rparr> (Some [1])) \<and>
   step (node_of \<lparr>file_Filename = ''a'', file_Filesize = 20, file_ModifiedTime = 5\<rparr> (Some [2])) tree_a
     = Some (result_nodes (Refresh demo_FromJSON (demo_client [Some [2]]) tree_a)) \<and>
   result_nodes (Refresh demo_FromJSON (demo_client [Some [2]]) tree_a) ''a''
     = Some (node_of \<lparr>file_Filename = ''a'', file_Filesize = 20, file_ModifiedTime = 5\<rparr> (Some [2]))"
proof -
  let ?node = "node_of \<lparr>file_Filename = ''a'', file_Filesize = 20, file_ModifiedTime = 5\<rparr> (Some [2])"
  let ?old = "node_of \<lparr>file_Filename = ''a'', file_Filesize = 10, file_ModifiedTime = 5\<rparr> (Some [1])"
  let ?u = "result_nodes (Refresh demo_FromJSON (demo_client [Some [2]]) tree_a)"
  have f: "fetched demo_FromJSON (demo_client [Some [2]]) (Some [2]) = Some ?node"
    by (simp add: fetched_def demo_client_def demo_FromJSON_def)
  have a: "tree_a ''a'' = Some ?old" by (simp add: tree_a_def run_simps)
  have st: "step ?node tree_a = Some ?u" by (simp add: tree_a_def run_simps)
  from record_replaces_unless_older [OF f st a] have "?u ''a'' = Some ?node" by simp
  with f a st show ?thesis by simp
qed

text \<open>
  Claim C1 as stated fails: the node of \<open>a\<close> has the hash \<open>[1]\<close> and the modified time 5;
  a pass over the record with hash \<open>[2]\<close>, for the same path and with the same modified
  time 5, does not discard it: the node then has the hash \<open>[2]\<close>.
\<close>

theorem equal_time_record_replaces:
  "map_option Sha256sum (tree_a ''a'') = Some (Some [1]) \<and>
   map_option ModifiedTime (tree_a ''a'') = Some 5 \<and>
   map_option ModifiedTime (fetched demo_FromJSON (demo_client [Some [2]]) (Some [2])) = Some 5 \<and>
   map_option Filename (fetched demo_FromJSON (demo_client [Some [2]]) (Some [2])) = Some ''a'' \<and>
   map_option Sha256sum (node_after (Refresh demo_FromJSON (demo_client [Some [2]]) tree_a) ''a'')
     = Some (Some [2])"
  by (simp add: tree_a_def run_simps)

subsection \<open>Directories and records\<close>










subsection \<open>Trees without collisions\<close>

lemma linked_keeps:
  "(\<And>d f. HasChild t d f \<Longrightarrow> HasChild t' d f) \<Longrightarrow> linked t p \<Longrightarrow> linked t' p"
proof (induction t p rule: linked.induct)
  case (1 t filepath)
  obtain dir f where pf: "parent_of filepath = (dir, f)" by (cases "parent_of filepath")
  show ?case
  proof (cases "dir = ''/''")
    case True
    with 1(2,3) pf show ?thesis by (auto simp: linked_unfold [OF pf])
  next
    case False
    with 1(3) pf have "HasChild t dir f" "linked t dir" by (auto simp: linked_unfold [OF pf])
    with 1(1) [OF pf [symmetric] False 1(2)] 1(2) pf False show ?thesis
      by (auto simp: linked_unfold [OF pf])
  qed
qed

lemma linked_ancestors: "linked t p \<Longrightarrow> q \<in> set (ancestors p) \<Longrightarrow> q \<noteq> ''/'' \<Longrightarrow> linked t q"
proof (induction t p rule: linked.induct)
  case (1 t filepath)
  obtain dir f where pf: "parent_of filepath = (dir, f)" by (cases "parent_of filepath")
  show ?case
  proof (cases "dir = ''/''")
    case True
    with 1(3,4) pf show ?thesis by (simp add: ancestors_unfold [OF pf])
  next
    case False
    with 1(2) have ld: "linked t dir" by (simp add: linked_unfold [OF pf])
    from 1(3) False have "q = dir \<or> q \<in> set (ancestors dir)" by (simp add: ancestors_unfold [OF pf])
    then show ?thesis
    proof
      assume "q = dir"
      with ld show ?thesis by simp
    next
      assume "q \<in> set (ancestors dir)"
      from 1(1) [OF pf [symmetric] False ld this 1(4)] show ?thesis .
    qed
  qed
qed

lemma no_collisionD: "no_collision ps \<Longrightarrow> p \<in> set ps \<Longrightarrow> q \<in> set ps \<Longrightarrow> p \<notin> set (ancestors q)"
  by (simp add: no_collision_def)

lemma no_collision_root: "no_collision ps \<Longrightarrow> ''/'' \<notin> set ps"
  using root_in_ancestors [of "''/''"] by (auto simp: no_collision_def)

lemma separated_initial: "''/'' \<notin> P \<Longrightarrow> separated P initial_nodes"
  by (auto simp: separated_def initial_nodes_def root_node_def)

text \<open>Installing at a record path, in a separated map without collisions, returns a separated map.\<close>

lemma separated_install:
  assumes sep: "separated (set ps) u" and nc: "no_collision ps"
    and p: "Filename node \<in> set ps" and nil: "Children node = None"
  shows "\<exists>u'. install node u = Some u' \<and> separated (set ps) u'"
proof -
  let ?p = "Filename node"
  have anc: "d \<notin> set ps" if "d \<in> set (ancestors ?p)" for d
    using no_collisionD [OF nc _ p, of d] that by blast
  have "install node u \<noteq> None"
  proof
    assume "install node u = None"
    then obtain d n where d: "d \<in> set (ancestors ?p)" and n: "(u(?p \<mapsto> node)) d = Some n"
      and c: "Children n = None" by (auto simp: install_None_iff)
    from anc [OF d] p have "d \<noteq> ?p" by auto
    with n have "u d = Some n" by simp
    with sep c have "d \<in> set ps" by (auto simp: separated_def)
    with anc [OF d] show False by simp
  qed
  then obtain u' where i: "install node u = Some u'" by auto
  have keeps: "HasChild u' d f" if "HasChild u d f" for d f
  proof -
    from that obtain m where m: "u d = Some m" and c: "Children m \<noteq> None"
      by (auto simp: HasChild_def split: option.splits)
    with sep have "d \<notin> set ps" by (auto simp: separated_def)
    with p have "d \<noteq> ?p" by auto
    from install_grown [OF i this m] obtain m' where "u' d = Some m'" "grown m m'" by auto
    with that m show ?thesis by (auto simp: HasChild_def grown_def split: option.splits)
  qed
  have ch: "Children m = None \<longleftrightarrow> q \<in> set ps" if q: "u' q = Some m" for q m
  proof (cases "q = ?p")
    case True
    with install_at [OF nil i] q nil p show ?thesis by simp
  next
    case False
    show ?thesis
    proof (cases "u q")
      case None
      from install_new [OF i False None q] have "Children m \<noteq> None" by (auto simp: dir_node_def)
      moreover from install_dom [OF i] q None False have "q \<in> set (ancestors ?p)" by auto
      ultimately show ?thesis using anc by auto
    next
      case (Some m0)
      from install_grown [OF i False Some] q have "grown m0 m" by simp
      then have "Children m = None \<longleftrightarrow> Children m0 = None"
        by (auto simp: grown_def split: option.splits)
      with sep Some show ?thesis by (auto simp: separated_def)
    qed
  qed
  have li: "linked u' q" if q: "q \<in> dom u'" and nr: "q \<noteq> ''/''" for q
  proof -
    from install_dom [OF i] q consider "q = ?p" | "q \<in> set (ancestors ?p)" | "q \<in> dom u" by auto
    then show ?thesis
    proof cases
      case 1
      with install_linked [OF i] show ?thesis by simp
    next
      case 2
      from linked_ancestors [OF install_linked [OF i] 2 nr] show ?thesis .
    next
      case 3
      with sep nr have "linked u q" by (auto simp: separated_def)
      then show ?thesis by (rule linked_keeps [rotated]) (rule keeps)
    qed
  qed
  from i ch li show ?thesis by (auto simp: separated_def)
qed

lemma refresh_loop_total:
  assumes "P t"
    and "\<And>h node u. h \<in> set hs \<Longrightarrow> fetched D c h = Some node \<Longrightarrow> P u \<Longrightarrow>
           \<exists>u'. install node u = Some u' \<and> P u'"
  shows "\<exists>t'. refresh_loop D c hs known t = Some t' \<and> P t'"
  using assms
proof (induction hs arbitrary: known t)
  case Nil
  then show ?case by simp
next
  case (Cons h hs)
  have step: "\<And>h' node u. h' \<in> set hs \<Longrightarrow> fetched D c h' = Some node \<Longrightarrow> P u \<Longrightarrow>
      \<exists>u'. install node u = Some u' \<and> P u'"
    using Cons.prems(2) by auto
  show ?case
  proof (cases "string_of h \<in> known \<or> fetched D c h = None")
    case True
    then have "refresh_loop D c (h # hs) known t = refresh_loop D c hs known t"
      by (auto simp: fetched_def split: option.splits)
    with Cons.IH [OF Cons.prems(1) step] show ?thesis by simp
  next
    case False
    then obtain node where f: "fetched D c h = Some node" and k: "string_of h \<notin> known" by auto
    show ?thesis
    proof (cases "stale t node")
      case True
      with f k have "refresh_loop D c (h # hs) known t = refresh_loop D c hs known t"
        by (auto simp: fetched_def Let_def split: option.splits)
      with Cons.IH [OF Cons.prems(1) step] show ?thesis by simp
    next
      case False
      from Cons.prems(2) [OF _ f Cons.prems(1)] obtain u where
        i: "install node t = Some u" and u: "P u" by auto
      with f k False have "refresh_loop D c (h # hs) known t
          = refresh_loop D c hs (insert (string_of h) known) u"
        by (auto simp: fetched_def Let_def split: option.splits)
      with Cons.IH [OF u step] show ?thesis by simp
    qed
  qed
qed

lemma fetched_in_parsed: "h \<in> set hs \<Longrightarrow> fetched D c h = Some node \<Longrightarrow> node \<in> set (parsed D c hs)"
  by (force simp: parsed_def map_filter_def)

lemma separated_Refresh:
  assumes sep: "separated (set ps) t" and nc: "no_collision ps" and sub: "set (paths_of D c) \<subseteq> set ps"
  shows "Refresh D c t = ListFilesFailed \<or> (\<exists>t'. Refresh D c t = Returned t' \<and> separated (set ps) t')"
proof (cases "ListFiles c")
  case None
  then show ?thesis by (simp add: Refresh_def)
next
  case (Some hs)
  have "\<exists>t'. refresh_loop D c hs {} t = Some t' \<and> separated (set ps) t'"
  proof (rule refresh_loop_total [where P = "separated (set ps)", OF sep])
    fix h node u
    assume "h \<in> set hs" "fetched D c h = Some node" "separated (set ps) u"
    moreover from this Some sub have "Filename node \<in> set ps"
      by (auto simp: paths_of_def dest!: fetched_in_parsed)
    ultimately show "\<exists>u'. install node u = Some u' \<and> separated (set ps) u'"
      using separated_install [OF _ nc] fetched_Children by blast
  qed
  with Some show ?thesis by (auto simp: Refresh_def)
qed

lemma separated_refreshes:
  assumes "separated (set ps) t" and "no_collision ps"
    and "set (concat (map (paths_of D) cs)) \<subseteq> set ps"
  shows "\<exists>t'. refreshes D cs t = Some t' \<and> separated (set ps) t'"
  using assms
proof (induction cs arbitrary: t)
  case Nil
  then show ?case by simp
next
  case (Cons c cs)
  from Cons.prems(3) have sub: "set (paths_of D c) \<subseteq> set ps"
    and rest: "set (concat (map (paths_of D) cs)) \<subseteq> set ps" by auto
  from separated_Refresh [OF Cons.prems(1,2) sub]
  show ?case
  proof
    assume "Refresh D c t = ListFilesFailed"
    with Cons.IH [OF Cons.prems(1,2) rest] show ?thesis by simp
  next
    assume "\<exists>t'. Refresh D c t = Returned t' \<and> separated (set ps) t'"
    then obtain u where "Refresh D c t = Returned u" "separated (set ps) u" by auto
    with Cons.IH [OF _ Cons.prems(2) rest, of u] show ?thesis by simp
  qed
qed

text \<open>
  Claim C4, as the code has it. When no record path of any pass is a directory above a record
  path of any pass (no path is claimed both as a file and as an ancestor), the passes do not
  panic, and after \<open>NewTree\<close> and any later passes every node but the root is linked: each
  directory on the way from its path up to the root registers the segment below it.
\<close>

theorem nodes_linked_without_collisions:
  assumes "no_collision (concat (map (paths_of D) (c # cs)))"
    and "ListFiles c \<noteq> None"
  shows "\<exists>t0 t. NewTree D c = Returned t0 \<and> refreshes D cs t0 = Some t \<and>
           (\<forall>p \<in> dom t. p \<noteq> ''/'' \<longrightarrow> linked t p)"
proof -
  let ?ps = "concat (map (paths_of D) (c # cs))"
  from no_collision_root [OF assms(1)] have "separated (set ?ps) initial_nodes"
    by (rule separated_initial)
  from separated_Refresh [OF this assms(1), of D c] assms(2)
  obtain t0 where t0: "NewTree D c = Returned t0" and s0: "separated (set ?ps) t0"
    by (auto simp: NewTree_def Refresh_def split: option.splits)
  from separated_refreshes [OF s0 assms(1), of D cs]
  obtain t where "refreshes D cs t0 = Some t" "separated (set ?ps) t" by auto
  with t0 show ?thesis by (auto simp: separated_def)
qed

lemma ancestors_demo:
  "ancestors ''a'' = [''/'']" "ancestors ''d'' = [''/'']"
  "ancestors ''a/b'' = [''a'', ''/'']" "ancestors ''a/c'' = [''a'', ''/'']"
  by (simp_all add: ancestors.simps path_simps)

theorem nodes_linked_without_collisions_witness:
  "no_collision (concat (map (paths_of demo_FromJSON)
      [demo_client [Some [4], Some [5]], demo_client [Some [6], Some [8]], down_client])) \<and>
   ListFiles (demo_client [Some [4], Some [5]]) \<noteq> None \<and>
   ''a/c'' \<in> dom (the (refreshes demo_FromJSON [demo_client [Some [6], Some [8]], down_client]
       (result_nodes (NewTree demo_FromJSON (demo_client [Some [4], Some [5]]))))) \<and>
   linked (the (refreshes demo_FromJSON [demo_client [Some [6], Some [8]], down_client]
       (result_nodes (NewTree demo_FromJSON (demo_client [Some [4], Some [5]]))))) ''a/c''"
proof -
  let ?c = "demo_client [Some [4], Some [5]]"
  let ?cs = "[demo_client [Some [6], Some [8]], down_client]"
  have ps: "concat (map (paths_of demo_FromJSON) (?c # ?cs)) = [''a/b'', ''a/c'', ''d'']"
    by (simp add: paths_of_def parsed_def map_filter_def fetched_def demo_client_def
        down_client_def demo_FromJSON_def)
  have nc: "no_collision (concat (map (paths_of demo_FromJSON) (?c # ?cs)))"
    unfolding ps by (simp add: no_collision_def ancestors_demo)
  have l: "ListFiles ?c \<noteq> None" by (simp add: demo_client_def)
  have d: "''a/c'' \<in> dom (the (refreshes demo_FromJSON ?cs (result_nodes (NewTree demo_FromJSON ?c))))"
    by (simp add: run_simps)
  from nodes_linked_without_collisions [OF nc l] obtain t0 t where
    "NewTree demo_FromJSON ?c = Returned t0" "refreshes demo_FromJSON ?cs t0 = Some t"
    "\<forall>p \<in> dom t. p \<noteq> ''/'' \<longrightarrow> linked t p" by blast
  with d have "linked (the (refreshes demo_FromJSON ?cs (result_nodes (NewTree demo_FromJSON ?c)))) ''a/c''"
    by auto
  with nc l d show ?thesis by simp
qed

text \<open>
  Claim C4 as stated fails: after the construction over the records \<open>a/b\<close> and \<open>a\<close>, listed
  in this order, the node \<open>a/b\<close> is in the map and \<open>a\<close> does not register \<open>b\<close>.
\<close>

theorem file_over_directory_unlinks:
  "NewTree demo_FromJSON (demo_client [Some [4], Some [1]])
     = Returned (result_nodes (NewTree demo_FromJSON (demo_client [Some [4], Some [1]]))) \<and>
   ''a/b'' \<in> dom (result_nodes (NewTree demo_FromJSON (demo_client [Some [4], Some [1]]))) \<and>
   \<not> HasChild (result_nodes (NewTree demo_FromJSON (demo_client [Some [4], Some [1]]))) ''a'' ''b'' \<and>
   \<not> linked (result_nodes (NewTree demo_FromJSON (demo_client [Some [4], Some [1]]))) ''a/b''"
  by (simp add: run_simps HasChild_def linked.simps)

lemma loop_steps:
  assumes "distinct (map string_of (filter (\<lambda>h. fetched D c h \<noteq> None) hs))"
    and "\<forall>h \<in> set hs. fetched D c h \<noteq> None \<longrightarrow> string_of h \<notin> known"
  shows "refresh_loop D c hs known t = steps (parsed D c hs) t"
  using assms
proof (induction hs arbitrary: known t)
  case Nil
  show ?case by (simp add: parsed_def)
next
  case (Cons h hs)
  show ?case
  proof (cases "fetched D c h")
    case None
    then have "refresh_loop D c (h # hs) known t = refresh_loop D c hs known t"
      by (auto simp: fetched_def split: option.splits)
    moreover from None have "parsed D c (h # hs) = parsed D c hs" by (simp add: parsed_def)
    moreover from None Cons.prems have "refresh_loop D c hs known t = steps (parsed D c hs) t"
      by (intro Cons.IH) auto
    ultimately show ?thesis by simp
  next
    case (Some node)
    with Cons.prems(2) have k: "string_of h \<notin> known" by simp
    from Some have p: "parsed D c (h # hs) = node # parsed D c hs" by (simp add: parsed_def)
    from Some Cons.prems(1) have d: "distinct (map string_of (filter (\<lambda>h. fetched D c h \<noteq> None) hs))"
      and "string_of h \<notin> string_of ` set (filter (\<lambda>h. fetched D c h \<noteq> None) hs)"
      by simp_all
    then have fresh: "\<forall>h' \<in> set hs. fetched D c h' \<noteq> None \<longrightarrow> string_of h' \<noteq> string_of h"
    proof (intro ballI impI)
      fix h' assume "h' \<in> set hs" "fetched D c h' \<noteq> None"
      then have "h' \<in> set (filter (\<lambda>h. fetched D c h \<noteq> None) hs)" by simp
      then have "string_of h' \<in> string_of ` set (filter (\<lambda>h. fetched D c h \<noteq> None) hs)"
        by (rule imageI)
      with \<open>string_of h \<notin> string_of ` set (filter (\<lambda>h. fetched D c h \<noteq> None) hs)\<close>
      show "string_of h' \<noteq> string_of h" by metis
    qed
    show ?thesis
    proof (cases "stale t node")
      case True
      with Some k have "refresh_loop D c (h # hs) known t = refresh_loop D c hs known t"
        by (auto simp: fetched_def Let_def split: option.splits)
      moreover have "refresh_loop D c hs known t = steps (parsed D c hs) t"
        using d Cons.prems(2) by (intro Cons.IH) auto
      ultimately show ?thesis using True p by (simp add: step_def)
    next
      case False
      show ?thesis
      proof (cases "install node t")
        case None
        with Some k False p show ?thesis
          by (auto simp: fetched_def Let_def step_def split: option.splits)
      next
        case (Some u)
        with \<open>fetched D c h = Some node\<close> k False
        have "refresh_loop D c (h # hs) known t = refresh_loop D c hs (insert (string_of h) known) u"
          by (auto simp: fetched_def Let_def split: option.splits)
        moreover have "refresh_loop D c hs (insert (string_of h) known) u = steps (parsed D c hs) u"
          using d fresh Cons.prems(2) by (intro Cons.IH) auto
        ultimately show ?thesis using Some False p by (simp add: step_def)
      qed
    qed
  qed
qed

lemma steps_fresh:
  assumes "separated (set ps) u" and "no_collision ps"
    and "Filename ` set ns \<subseteq> set ps" and "distinct (map Filename ns)"
    and "\<forall>n \<in> set ns. Children n = None" and "Filename ` set ns \<inter> dom u = {}"
  shows "\<exists>u'. steps ns u = Some u' \<and> separated (set ps) u' \<and>
           dom u' = dom u \<union> Filename ` set ns \<union> (\<Union>n \<in> set ns. set (ancestors (Filename n)))"
  using assms
proof (induction ns arbitrary: u)
  case Nil
  then show ?case by simp
next
  case (Cons n ns)
  let ?p = "Filename n"
  from Cons.prems(6) have "u ?p = None" by auto
  then have ns: "\<not> stale u n" by (simp add: stale_def)
  from Cons.prems(3,5) have p: "?p \<in> set ps" and nil: "Children n = None" by auto
  from separated_install [OF Cons.prems(1,2) p nil] obtain u1 where
    i: "install n u = Some u1" and s1: "separated (set ps) u1" by auto
  have d1: "dom u1 = insert ?p (dom u) \<union> set (ancestors ?p)" by (rule install_dom [OF i])
  have "Filename ` set ns \<inter> dom u1 = {}"
  proof -
    have "q \<notin> dom u1" if "q \<in> Filename ` set ns" for q
    proof -
      from Cons.prems(4) have "?p \<notin> Filename ` set ns" by simp
      with that have "q \<noteq> ?p" by blast
      moreover from that Cons.prems(3) have "q \<in> set ps" by auto
      with no_collisionD [OF Cons.prems(2) _ p] have "q \<notin> set (ancestors ?p)" by blast
      moreover from that Cons.prems(6) have "q \<notin> dom u" by auto
      ultimately show ?thesis using d1 by simp
    qed
    then show ?thesis by auto
  qed
  with Cons.IH [OF s1 Cons.prems(2), of] Cons.prems(3,4,5) obtain u' where
    "steps ns u1 = Some u'" "separated (set ps) u'"
    "dom u' = dom u1 \<union> Filename ` set ns \<union> (\<Union>n \<in> set ns. set (ancestors (Filename n)))"
    by auto
  with i ns d1 show ?case by (auto simp: step_def)
qed

lemma distinct_keys:
  assumes "None \<notin> set hs" and "distinct (map Filename (parsed D c hs))"
  shows "distinct (map string_of (filter (\<lambda>h. fetched D c h \<noteq> None) hs))"
proof -
  let ?good = "filter (\<lambda>h. fetched D c h \<noteq> None) hs"
  from assms(2) have "distinct (map (Filename \<circ> (the \<circ> fetched D c)) ?good)"
    by (simp add: parsed_def map_filter_def)
  then have "distinct ?good" by (simp add: distinct_map)
  moreover have "inj_on string_of (set ?good)"
  proof (rule inj_onI)
    fix x y
    assume "x \<in> set ?good" "y \<in> set ?good" "string_of x = string_of y"
    with assms(1) show "x = y" by (cases x; cases y) (auto simp: string_of_def)
  qed
  ultimately show ?thesis by (simp add: distinct_map)
qed

lemma finite_directories: "finite (directories ps)"
  by (simp add: directories_def)

text \<open>
  Claim C6, as the code has it. Take a listing without nil hashes whose records have N distinct
  paths, none of them a directory above another, and let K be the number of directories of
  these paths, the root among them. Then \<open>NewTree\<close> returns a tree with N + K nodes, the
  record paths together with the directories, and every record path is linked: each of its
  ancestor directories registers the segment below it.
\<close>

theorem node_count_without_collisions:
  assumes "ListFiles c = Some hs" and "None \<notin> set hs"
    and "distinct (paths_of D c)" and "no_collision (paths_of D c)"
  shows "\<exists>t. NewTree D c = Returned t \<and>
           NumNodes t = length (paths_of D c) + card (directories (paths_of D c)) \<and>
           dom t = set (paths_of D c) \<union> directories (paths_of D c) \<and>
           (\<forall>p \<in> set (paths_of D c). linked t p)"
proof -
  let ?ps = "paths_of D c"
  let ?ns = "parsed D c hs"
  from assms(1) have ps: "?ps = map Filename ?ns" by (simp add: paths_of_def)
  from assms(2,3) have "distinct (map string_of (filter (\<lambda>h. fetched D c h \<noteq> None) hs))"
    unfolding ps by (rule distinct_keys)
  then have loop: "refresh_loop D c hs {} initial_nodes = steps ?ns initial_nodes"
    by (rule loop_steps) simp
  have root: "''/'' \<notin> set ?ps" by (rule no_collision_root [OF assms(4)])
  have nil: "\<forall>n \<in> set ?ns. Children n = None"
    by (auto simp: parsed_def map_filter_def dest: fetched_Children)
  from steps_fresh [OF separated_initial [OF root] assms(4), of ?ns] nil root assms(3)
  obtain t where st: "steps ?ns initial_nodes = Some t" and sep: "separated (set ?ps) t"
    and dom: "dom t = dom initial_nodes \<union> Filename ` set ?ns \<union> (\<Union>n \<in> set ?ns. set (ancestors (Filename n)))"
    by (auto simp: ps initial_nodes_dom)
  from st loop assms(1) have ret: "NewTree D c = Returned t" by (simp add: NewTree_def Refresh_def)
  from dom have dom': "dom t = set ?ps \<union> directories ?ps"
    by (auto simp: ps directories_def initial_nodes_dom)
  have disj: "set ?ps \<inter> directories ?ps = {}"
    using root no_collisionD [OF assms(4)] by (auto simp: directories_def)
  have "card (dom t) = card (set ?ps) + card (directories ?ps)"
    unfolding dom' by (rule card_Un_disjoint) (simp_all add: finite_directories disj)
  with assms(3) have n: "NumNodes t = length ?ps + card (directories ?ps)"
    by (simp add: NumNodes_def distinct_card)
  have "linked t p" if "p \<in> set ?ps" for p
  proof -
    from that dom' have "p \<in> dom t" by simp
    moreover from that root have "p \<noteq> ''/''" by auto
    ultimately show ?thesis using sep by (simp add: separated_def)
  qed
  with ret n dom' show ?thesis by blast
qed

theorem node_count_without_collisions_witness:
  "ListFiles (demo_client [Some [4], Some [9], Some [5], Some [6]]) = Some [Some [4], Some [9], Some [5], Some [6]] \<and>
   None \<notin> set [Some [4], Some [9], Some [5], Some [6 :: 8 word]] \<and>
   paths_of demo_FromJSON (demo_client [Some [4], Some [9], Some [5], Some [6]]) = [''a/b'', ''a/c'', ''d''] \<and>
   distinct [''a/b'', ''a/c'', ''d''] \<and> no_collision [''a/b'', ''a/c'', ''d''] \<and>
   directories [''a/b'', ''a/c'', ''d''] = {''/'', ''a''} \<and>
   NumNodes (result_nodes (NewTree demo_FromJSON (demo_client [Some [4], Some [9], Some [5], Some [6]]))) = 3 + 2 \<and>
   HasChild (result_nodes (NewTree demo_FromJSON (demo_client [Some [4], Some [9], Some [5], Some [6]]))) ''a'' ''c'' \<and>
   HasChild (result_nodes (NewTree demo_FromJSON (demo_client [Some [4], Some [9], Some [5], Some [6]]))) ''/'' ''a''"
proof -
  let ?hs = "[Some [4], Some [9], Some [5], Some [6 :: 8 word]]"
  let ?c = "demo_client ?hs"
  have l: "ListFiles ?c = Some ?hs" by (simp add: demo_client_def)
  have nn: "None \<notin> set ?hs" by simp
  have ps: "paths_of demo_FromJSON ?c = [''a/b'', ''a/c'', ''d'']"
    by (simp add: paths_of_def parsed_def map_filter_def fetched_def demo_client_def demo_FromJSON_def)
  have d: "distinct [''a/b'', ''a/c'', ''d'']" by simp
  have nc: "no_collision [''a/b'', ''a/c'', ''d'']"
    by (simp add: no_collision_def ancestors_demo)
  have dirs: "directories [''a/b'', ''a/c'', ''d''] = {''/'', ''a''}"
    by (auto simp: directories_def ancestors_demo)
  from d nc have d': "distinct (paths_of demo_FromJSON ?c)" and nc': "no_collision (paths_of demo_FromJSON ?c)"
    by (simp_all only: ps)
  from node_count_without_collisions [OF l nn d' nc', unfolded ps] obtain t where
    t: "NewTree demo_FromJSON ?c = Returned t"
    and n: "NumNodes t = length [''a/b'', ''a/c'', ''d''] + card (directories [''a/b'', ''a/c'', ''d''])"
    and li: "\<forall>p \<in> set [''a/b'', ''a/c'', ''d'']. linked t p" by blast
  from li have "linked t ''a/c''" by simp
  then have "HasChild t ''a'' ''c'' \<and> HasChild t ''/'' ''a''"
    by (simp add: linked.simps path_simps)
  with t n dirs l nn ps d nc show ?thesis by simp
qed

text \<open>
  Claim C6 as stated fails: the records \<open>a/b\<close> and \<open>a\<close>, listed in this order, have two
  distinct paths under the two directories \<open>/\<close> and \<open>a\<close>; the tree has three nodes, not
  four, and \<open>a\<close> does not report \<open>b\<close> as a child.
\<close>

theorem colliding_paths_miscount:
  "paths_of demo_FromJSON (demo_client [Some [4], Some [1]]) = [''a/b'', ''a''] \<and>
   distinct [''a/b'', ''a''] \<and>
   directories [''a/b'', ''a''] = {''/'', ''a''} \<and>
   NumNodes (result_nodes (NewTree demo_FromJSON (demo_client [Some [4], Some [1]]))) = 3 \<and>
   \<not> HasChild (result_nodes (NewTree demo_FromJSON (demo_client [Some [4], Some [1]]))) ''a'' ''b''"
proof -
  have "directories [''a/b'', ''a''] = {''/'', ''a''}"
    by (auto simp: directories_def ancestors_demo)
  moreover have "paths_of demo_FromJSON (demo_client [Some [4], Some [1]]) = [''a/b'', ''a'']"
    by (simp add: paths_of_def parsed_def map_filter_def fetched_def demo_client_def demo_FromJSON_def)
  moreover have "NumNodes (result_nodes (NewTree demo_FromJSON (demo_client [Some [4], Some [1]]))) = 3"
    by (simp add: run_simps NumNodes_def)
  moreover have "\<not> HasChild (result_nodes (NewTree demo_FromJSON (demo_client [Some [4], Some [1]]))) ''a'' ''b''"
    by (simp add: run_simps HasChild_def)
  ultimately show ?thesis by simp
qed

subsection \<open>Registrations commute\<close>

lemma chain_unfold:
  "parent_of p = (d, f) \<Longrightarrow> chain p = (d, f) # (if d \<noteq> ''/'' then chain d else [])"
  by (subst chain.simps) simp

lemma addParents_registers: "addParents p t = registers (chain p) t"
proof (induction p t rule: addParents.induct)
  case (1 filepath t)
  obtain dir f where pf: "parent_of filepath = (dir, f)" by (cases "parent_of filepath")
  show ?case
  proof (cases "register_child t dir f")
    case None
    then show ?thesis by (simp add: addParents_unfold [OF pf] chain_unfold [OF pf])
  next
    case (Some t1)
    show ?thesis
    proof (cases "dir = ''/''")
      case True
      with Some show ?thesis by (simp add: addParents_unfold [OF pf] chain_unfold [OF pf])
    next
      case False
      with 1 [OF pf [symmetric] Some False] Some show ?thesis
        by (simp add: addParents_unfold [OF pf] chain_unfold [OF pf])
    qed
  qed
qed

lemma chain_dirs: "fst ` set (chain p) = set (ancestors p)"
proof (induction p rule: ancestors.induct)
  case (1 filepath)
  obtain dir f where pf: "parent_of filepath = (dir, f)" by (cases "parent_of filepath")
  show ?case
  proof (cases "dir = ''/''")
    case True
    then show ?thesis by (simp add: ancestors_unfold [OF pf] chain_unfold [OF pf])
  next
    case False
    with 1 [OF pf [symmetric] False] show ?thesis
      by (simp add: ancestors_unfold [OF pf] chain_unfold [OF pf])
  qed
qed

text \<open>Two registrations give the same map in either order, and panic in either order or in none.\<close>

lemma register_child_commute:
  "Option.bind (register_child t d f) (\<lambda>u. register_child u d' f') =
   Option.bind (register_child t d' f') (\<lambda>u. register_child u d f)"
proof (cases "d = d'")
  case False
  then show ?thesis
    by (auto simp: register_child_def fun_upd_twist split: option.splits)
next
  case True
  show ?thesis
  proof (cases "f = f'")
    case True
    with \<open>d = d'\<close> show ?thesis by simp
  next
    case False
    with True show ?thesis
      by (auto simp: register_child_def dir_node_def fun_upd_twist split: option.splits)
  qed
qed

lemma register_child_idem: "register_child t d f = Some t' \<Longrightarrow> register_child t' d f = Some t'"
  by (auto simp: register_child_def dir_node_def split: option.splits)

lemma register_child_upd:
  "q \<noteq> d \<Longrightarrow> register_child (t(q \<mapsto> v)) d f = map_option (\<lambda>u. u(q \<mapsto> v)) (register_child t d f)"
  by (auto simp: register_child_def fun_upd_twist split: option.splits)

lemma registers_register_child:
  "Option.bind (registers xs t) (\<lambda>u. register_child u d f) =
   Option.bind (register_child t d f) (registers xs)"
proof (induction xs arbitrary: t)
  case Nil
  show ?case by simp
next
  case (Cons x xs)
  obtain d' f' where x: "x = (d', f')" by (cases x)
  have "Option.bind (registers (x # xs) t) (\<lambda>u. register_child u d f)
      = Option.bind (register_child t d' f') (\<lambda>t'. Option.bind (registers xs t') (\<lambda>u. register_child u d f))"
    by (simp add: x split: option.splits)
  also have "\<dots> = Option.bind (register_child t d' f') (\<lambda>t'. Option.bind (register_child t' d f) (registers xs))"
    by (simp add: Cons.IH)
  also have "\<dots> = Option.bind (Option.bind (register_child t d' f') (\<lambda>t'. register_child t' d f)) (registers xs)"
    by (simp add: Option.bind_assoc)
  also have "\<dots> = Option.bind (Option.bind (register_child t d f) (\<lambda>t'. register_child t' d' f')) (registers xs)"
    by (simp add: register_child_commute [of t d' f' d f])
  also have "\<dots> = Option.bind (register_child t d f) (registers (x # xs))"
    by (simp add: x Option.bind_assoc split: option.splits bind_splits)
  finally show ?case .
qed

lemma registers_commute:
  "Option.bind (registers xs t) (registers ys) = Option.bind (registers ys t) (registers xs)"
proof (induction xs arbitrary: t)
  case Nil
  show ?case by simp
next
  case (Cons x xs)
  obtain d f where x: "x = (d, f)" by (cases x)
  have "Option.bind (registers (x # xs) t) (registers ys)
      = Option.bind (register_child t d f) (\<lambda>t'. Option.bind (registers xs t') (registers ys))"
    by (simp add: x split: option.splits)
  also have "\<dots> = Option.bind (register_child t d f) (\<lambda>t'. Option.bind (registers ys t') (registers xs))"
    by (simp add: Cons.IH)
  also have "\<dots> = Option.bind (Option.bind (register_child t d f) (registers ys)) (registers xs)"
    by (simp add: Option.bind_assoc)
  also have "\<dots> = Option.bind (Option.bind (registers ys t) (\<lambda>u. register_child u d f)) (registers xs)"
    by (simp add: registers_register_child)
  also have "\<dots> = Option.bind (registers ys t) (registers (x # xs))"
    by (simp add: x Option.bind_assoc split: option.splits bind_splits)
  finally show ?case .
qed

lemma registers_idem: "registers xs t = Some t' \<Longrightarrow> registers xs t' = Some t'"
proof (induction xs arbitrary: t)
  case Nil
  then show ?case by simp
next
  case (Cons x xs)
  obtain d f where x: "x = (d, f)" by (cases x)
  from Cons.prems x obtain t1 where r: "register_child t d f = Some t1" and s: "registers xs t1 = Some t'"
    by (auto split: option.splits)
  from registers_register_child [of xs t1 d f] s register_child_idem [OF r]
  have "register_child t' d f = Some t'" by simp
  with Cons.IH [OF s] x show ?case by simp
qed

lemma registers_upd:
  "q \<notin> fst ` set xs \<Longrightarrow> registers xs (t(q \<mapsto> v)) = map_option (\<lambda>u. u(q \<mapsto> v)) (registers xs t)"
proof (induction xs arbitrary: t)
  case Nil
  show ?case by simp
next
  case (Cons x xs)
  obtain d f where x: "x = (d, f)" by (cases x)
  with Cons.prems have qd: "q \<noteq> d" and rest: "q \<notin> fst ` set xs" by auto
  have rc: "register_child (t(q \<mapsto> v)) d f = map_option (\<lambda>u. u(q \<mapsto> v)) (register_child t d f)"
    using qd by (rule register_child_upd)
  show ?case
  proof (cases "register_child t d f")
    case None
    with rc have "register_child (t(q \<mapsto> v)) d f = None" by simp
    with None show ?thesis unfolding x by (simp only: registers.simps option.case option.map)
  next
    case (Some t1)
    with rc have "register_child (t(q \<mapsto> v)) d f = Some (t1(q \<mapsto> v))" by simp
    with Some have "registers (x # xs) (t(q \<mapsto> v)) = registers xs (t1(q \<mapsto> v))"
      and "registers (x # xs) t = registers xs t1"
      unfolding x by (simp_all only: registers.simps option.case)
    with Cons.IH [OF rest, of t1] show ?thesis by (simp only:)
  qed
qed

lemma addParents_commute:
  "Option.bind (addParents p t) (addParents q) = Option.bind (addParents q t) (addParents p)"
  using registers_commute [of "chain p" t "chain q"]
  by (simp add: addParents_registers [abs_def])

lemma addParents_idem: "addParents p t = Some t' \<Longrightarrow> addParents p t' = Some t'"
  by (simp add: addParents_registers registers_idem)

lemma addParents_upd:
  "q \<notin> set (ancestors p) \<Longrightarrow>
   addParents p (t(q \<mapsto> v)) = map_option (\<lambda>u. u(q \<mapsto> v)) (addParents p t)"
  by (simp add: addParents_registers registers_upd chain_dirs)

subsection \<open>Iterations commute\<close>

lemma install_upd:
  assumes "Filename node \<notin> set (ancestors (Filename node))"
  shows "install node t = map_option (\<lambda>u. u(Filename node \<mapsto> node)) (addParents (Filename node) t)"
  using assms by (simp add: install_def addParents_upd)

lemma install_root_panics:
  "Children node = None \<Longrightarrow> Filename node \<in> set (ancestors (Filename node)) \<Longrightarrow> install node t = None"
  using install_not_root(1) [of node t] by (cases "install node t") auto

text \<open>Installing a second node at the path of the first leaves what installing it alone leaves.\<close>

lemma install_install:
  assumes "Filename n1 = Filename n2" and "Children n1 = None" and "Children n2 = None"
  shows "Option.bind (install n1 t) (install n2) = install n2 t"
proof (cases "Filename n1 \<in> set (ancestors (Filename n1))")
  case True
  with assms show ?thesis by (simp add: install_root_panics)
next
  case False
  let ?p = "Filename n1"
  from False assms(1) have i1: "install n1 t = map_option (\<lambda>u. u(?p \<mapsto> n1)) (addParents ?p t)"
    and i2: "\<And>t. install n2 t = map_option (\<lambda>u. u(?p \<mapsto> n2)) (addParents ?p t)"
    using install_upd [of n1] install_upd [of n2] by simp_all
  show ?thesis
  proof (cases "addParents ?p t")
    case None
    with i1 i2 [of t] show ?thesis by simp
  next
    case (Some a)
    from addParents_idem [OF Some] False
    have "addParents ?p (a(?p \<mapsto> n1)) = Some (a(?p \<mapsto> n1))"
      by (simp add: addParents_upd)
    then have "install n2 (a(?p \<mapsto> n1)) = Some (a(?p \<mapsto> n2))" by (simp add: i2)
    with Some i1 i2 [of t] show ?thesis by simp
  qed
qed

lemma stale_after_install_same:
  assumes "install n2 t = Some u" and "Children n2 = None" and "Filename n1 = Filename n2"
  shows "stale u n1 \<longleftrightarrow> ModifiedTime n1 < ModifiedTime n2"
  using install_at [OF assms(2,1)] assms(3) by (simp add: stale_def After_def)

lemma step_commute_same_path:
  assumes p: "Filename n1 = Filename n2" and lt: "ModifiedTime n1 < ModifiedTime n2"
    and nil: "Children n1 = None" "Children n2 = None"
  shows "Option.bind (step n1 t) (step n2) = Option.bind (step n2 t) (step n1)"
proof -
  have right: "Option.bind (install n2 t) (step n1) = install n2 t"
  proof (cases "install n2 t")
    case None
    then show ?thesis by simp
  next
    case (Some u)
    with stale_after_install_same [OF Some nil(2) p] lt show ?thesis by (simp add: step_def)
  qed
  show ?thesis
  proof (cases "stale t n2")
    case True
    with p lt have "stale t n1" by (auto simp: stale_def After_def split: option.splits)
    with True show ?thesis by (simp add: step_def)
  next
    case n2: False
    show ?thesis
    proof (cases "stale t n1")
      case True
      with n2 right show ?thesis by (simp add: step_def)
    next
      case False
      have "Option.bind (install n1 t) (step n2) = Option.bind (install n1 t) (install n2)"
      proof (cases "install n1 t")
        case None
        then show ?thesis by simp
      next
        case (Some u)
        from stale_after_install_same [OF Some nil(1) p [symmetric]] lt
        have "\<not> stale u n2" by simp
        with Some show ?thesis by (simp add: step_def)
      qed
      with install_install [OF p nil, of t] right False n2 show ?thesis by (simp add: step_def)
    qed
  qed
qed

lemma stale_after_install_other:
  assumes "install n1 t = Some u" and "Filename n2 \<noteq> Filename n1"
    and "Filename n2 \<notin> set (ancestors (Filename n1))"
  shows "stale u n2 = stale t n2"
  using install_other [OF assms(1,2,3)] by (simp add: stale_def)

lemma install_commute:
  assumes ne: "Filename n1 \<noteq> Filename n2"
    and a12: "Filename n1 \<notin> set (ancestors (Filename n2))"
    and a21: "Filename n2 \<notin> set (ancestors (Filename n1))"
  shows "Option.bind (install n1 t) (install n2) = Option.bind (install n2 t) (install n1)"
proof -
  let ?p1 = "Filename n1" and ?p2 = "Filename n2"
  from a12 root_in_ancestors [of ?p2] have "?p1 \<noteq> ''/''" by metis
  then have s1: "?p1 \<notin> set (ancestors ?p1)" by (rule not_own_ancestor)
  from a21 root_in_ancestors [of ?p1] have "?p2 \<noteq> ''/''" by metis
  then have s2: "?p2 \<notin> set (ancestors ?p2)" by (rule not_own_ancestor)
  have l: "Option.bind (install n1 t) (install n2)
      = map_option (\<lambda>u. u(?p1 \<mapsto> n1, ?p2 \<mapsto> n2)) (Option.bind (addParents ?p1 t) (addParents ?p2))"
  proof (cases "addParents ?p1 t")
    case None
    then show ?thesis by (simp add: install_upd [OF s1])
  next
    case (Some a)
    have "install n2 (a(?p1 \<mapsto> n1)) = map_option (\<lambda>u. u(?p1 \<mapsto> n1, ?p2 \<mapsto> n2)) (addParents ?p2 a)"
      by (simp add: install_upd [OF s2] addParents_upd [OF a12] option.map_comp comp_def)
    with Some show ?thesis by (simp add: install_upd [OF s1])
  qed
  have r: "Option.bind (install n2 t) (install n1)
      = map_option (\<lambda>u. u(?p2 \<mapsto> n2, ?p1 \<mapsto> n1)) (Option.bind (addParents ?p2 t) (addParents ?p1))"
  proof (cases "addParents ?p2 t")
    case None
    then show ?thesis by (simp add: install_upd [OF s2])
  next
    case (Some a)
    have "install n1 (a(?p2 \<mapsto> n2)) = map_option (\<lambda>u. u(?p2 \<mapsto> n2, ?p1 \<mapsto> n1)) (addParents ?p1 a)"
      by (simp add: install_upd [OF s1] addParents_upd [OF a21] option.map_comp comp_def)
    with Some show ?thesis by (simp add: install_upd [OF s2])
  qed
  have "(\<lambda>u :: nodes. u(?p1 \<mapsto> n1, ?p2 \<mapsto> n2)) = (\<lambda>u. u(?p2 \<mapsto> n2, ?p1 \<mapsto> n1))"
    using ne by (auto simp: fun_upd_twist)
  with l r addParents_commute [of ?p1 t ?p2] show ?thesis by simp
qed

lemma step_commute_other_path:
  assumes ne: "Filename n1 \<noteq> Filename n2"
    and a12: "Filename n1 \<notin> set (ancestors (Filename n2))"
    and a21: "Filename n2 \<notin> set (ancestors (Filename n1))"
  shows "Option.bind (step n1 t) (step n2) = Option.bind (step n2 t) (step n1)"
proof -
  have l: "Option.bind (install n1 t) (step n2)
      = (if stale t n2 then install n1 t else Option.bind (install n1 t) (install n2))"
  proof (cases "install n1 t")
    case None
    then show ?thesis by simp
  next
    case (Some u)
    with stale_after_install_other [OF Some ne [symmetric] a21] show ?thesis by (simp add: step_def)
  qed
  have r: "Option.bind (install n2 t) (step n1)
      = (if stale t n1 then install n2 t else Option.bind (install n2 t) (install n1))"
  proof (cases "install n2 t")
    case None
    then show ?thesis by simp
  next
    case (Some u)
    with stale_after_install_other [OF Some ne a12] show ?thesis by (simp add: step_def)
  qed
  from l r install_commute [OF ne a12 a21, of t] show ?thesis by (simp add: step_def)
qed

lemma step_commute:
  assumes "compatible n1 n2" and "Children n1 = None" and "Children n2 = None"
  shows "Option.bind (step n1 t) (step n2) = Option.bind (step n2 t) (step n1)"
proof (cases "Filename n1 = Filename n2")
  case False
  with assms(1) show ?thesis by (intro step_commute_other_path) (auto simp: compatible_def)
next
  case True
  with assms(1) have "n1 = n2 \<or> ModifiedTime n1 \<noteq> ModifiedTime n2" by (auto simp: compatible_def)
  then consider "n1 = n2" | "ModifiedTime n1 < ModifiedTime n2" | "ModifiedTime n2 < ModifiedTime n1"
    by fastforce
  then show ?thesis
  proof cases
    case 1
    then show ?thesis by simp
  next
    case 2
    from step_commute_same_path [OF True 2 assms(2,3)] show ?thesis .
  next
    case 3
    from step_commute_same_path [OF True [symmetric] 3 assms(3,2)] show ?thesis by simp
  qed
qed

lemma steps_append: "steps (xs @ ys) t = Option.bind (steps xs t) (steps ys)"
  by (induction xs arbitrary: t) (auto split: option.splits)

lemma steps_step_commute:
  assumes "\<forall>y \<in> set ys. compatible x y \<and> Children y = None" and "Children x = None"
  shows "Option.bind (steps ys t) (step x) = Option.bind (step x t) (steps ys)"
  using assms(1)
proof (induction ys arbitrary: t)
  case Nil
  show ?case by simp
next
  case (Cons y ys)
  have "Option.bind (steps (y # ys) t) (step x)
      = Option.bind (step y t) (\<lambda>u. Option.bind (steps ys u) (step x))"
    by (simp split: option.splits)
  also have "\<dots> = Option.bind (step y t) (\<lambda>u. Option.bind (step x u) (steps ys))"
    using Cons by simp
  also have "\<dots> = Option.bind (Option.bind (step y t) (step x)) (steps ys)"
    by (simp add: Option.bind_assoc)
  also have "\<dots> = Option.bind (Option.bind (step x t) (step y)) (steps ys)"
    using step_commute [of x y t] Cons.prems assms(2) by simp
  also have "\<dots> = Option.bind (step x t) (steps (y # ys))"
    by (simp add: Option.bind_assoc split: option.splits bind_splits)
  finally show ?case .
qed

lemma steps_permute:
  assumes "mset ys = mset xs" and "\<forall>a \<in> set xs. \<forall>b \<in> set xs. compatible a b"
    and "\<forall>a \<in> set xs. Children a = None"
  shows "steps ys t = steps xs t"
  using assms
proof (induction xs arbitrary: ys t)
  case Nil
  then show ?case by simp
next
  case (Cons x xs)
  from Cons.prems(1) have "x \<in> set ys" by (metis list.set_intros(1) mset_eq_setD)
  then obtain ys1 ys2 where ys: "ys = ys1 @ x # ys2" by (auto dest: split_list)
  with Cons.prems(1) have m: "mset (ys1 @ ys2) = mset xs" by simp
  from Cons.prems(1) have sub: "set ys = set (x # xs)" by (rule mset_eq_setD)
  have c: "\<forall>y \<in> set ys1. compatible x y \<and> Children y = None"
    using Cons.prems(2,3) sub ys by auto
  have "steps ys t = Option.bind (Option.bind (steps ys1 t) (step x)) (steps ys2)"
    unfolding ys by (simp add: steps_append Option.bind_assoc split: option.splits bind_splits)
  also have "\<dots> = Option.bind (Option.bind (step x t) (steps ys1)) (steps ys2)"
    using steps_step_commute [OF c, of t] Cons.prems(3) by simp
  also have "\<dots> = Option.bind (step x t) (steps (ys1 @ ys2))"
    by (cases "step x t") (simp_all add: steps_append)
  also have "\<dots> = Option.bind (step x t) (steps xs)"
  proof (cases "step x t")
    case None
    then show ?thesis by simp
  next
    case (Some u)
    with Cons.IH [OF m, of u] Cons.prems(2,3) show ?thesis by simp
  qed
  also have "\<dots> = steps (x # xs) t" by (simp split: option.splits)
  finally show ?case .
qed

subsection \<open>The order of a listing\<close>

lemma parsed_nil_children: "n \<in> set (parsed D c hs) \<Longrightarrow> Children n = None"
  by (auto simp: parsed_def map_filter_def dest: fetched_Children)

lemma parsed_client: "parsed D (c\<lparr>ListFiles := l\<rparr>) hs = parsed D c hs"
  by (simp add: parsed_def fetched_client)

lemma parsed_mset: "mset hs' = mset hs \<Longrightarrow> mset (parsed D c hs') = mset (parsed D c hs)"
proof -
  assume "mset hs' = mset hs"
  then have "mset (filter (\<lambda>x. fetched D c x \<noteq> None) hs') = mset (filter (\<lambda>x. fetched D c x \<noteq> None) hs)"
    by (simp only: mset_filter)
  then have "mset (map (the \<circ> fetched D c) (filter (\<lambda>x. fetched D c x \<noteq> None) hs'))
      = mset (map (the \<circ> fetched D c) (filter (\<lambda>x. fetched D c x \<noteq> None) hs))"
    by (simp only: mset_map)
  then show ?thesis by (simp only: parsed_def map_filter_def)
qed

lemma Refresh_steps:
  assumes "ListFiles c = Some hs" and "distinct (map string_of hs)"
  shows "Refresh D c t = (case steps (parsed D c hs) t of None \<Rightarrow> Panicked | Some t' \<Rightarrow> Returned t')"
proof -
  from assms(2) have "distinct (map string_of (filter (\<lambda>h. fetched D c h \<noteq> None) hs))"
    by (rule distinct_map_filter)
  then have "refresh_loop D c hs {} t = steps (parsed D c hs) t" by (rule loop_steps) simp
  with assms(1) show ?thesis by (simp add: Refresh_def)
qed

lemma steps_time_bound:
  assumes "steps ms t = Some v"
    and "\<forall>m \<in> set ms. Children m = None \<and> (Filename m = p \<longrightarrow> ModifiedTime m \<le> B) \<and>
           (Filename m \<noteq> p \<longrightarrow> p \<notin> set (ancestors (Filename m)))"
    and "\<forall>m0. t p = Some m0 \<longrightarrow> ModifiedTime m0 \<le> B"
    and "v p = Some m"
  shows "ModifiedTime m \<le> B"
  using assms
proof (induction ms arbitrary: t)
  case Nil
  then show ?case by simp
next
  case (Cons x xs)
  from Cons.prems(1) obtain t1 where s: "step x t = Some t1" and r: "steps xs t1 = Some v"
    by (auto split: option.splits)
  from Cons.prems(2) have x: "Children x = None" "Filename x = p \<longrightarrow> ModifiedTime x \<le> B"
    "Filename x \<noteq> p \<longrightarrow> p \<notin> set (ancestors (Filename x))" by auto
  have "\<forall>m0. t1 p = Some m0 \<longrightarrow> ModifiedTime m0 \<le> B"
    using s
  proof (cases rule: step_cases)
    case skipped
    with Cons.prems(3) show ?thesis by simp
  next
    case installed
    show ?thesis
    proof (cases "Filename x = p")
      case True
      with install_at [OF x(1) installed(2)] x(2) show ?thesis by auto
    next
      case False
      with install_other [OF installed(2), of p] x(3) Cons.prems(3) show ?thesis by auto
    qed
  qed
  from Cons.IH [OF r _ this Cons.prems(4)] Cons.prems(2) show ?case by simp
qed

text \<open>
  Claim C2, as the code has it. Take a pass over distinct hashes whose records are compatible:
  two records of one path have different modified times, and no record's path is a directory
  above another record's path. Then the pass over the listing in any other order does the
  same: it returns the same map, or it panics as well. When it returns, a record that is not
  stale for the map before the pass, and whose modified time is the latest among the records
  of its path, is the node at its path. So for two records of one path with T1 < T2 either
  order leaves the hash of the T2 record, unless a strictly later node was there before.
\<close>

theorem pass_order_irrelevant:
  assumes "ListFiles c = Some hs" and "mset hs' = mset hs" and "distinct (map string_of hs)"
    and "\<forall>n1 \<in> set (parsed D c hs). \<forall>n2 \<in> set (parsed D c hs). compatible n1 n2"
  shows "Refresh D (c\<lparr>ListFiles := Some hs'\<rparr>) t = Refresh D c t \<and>
         (\<forall>n u. n \<in> set (parsed D c hs) \<longrightarrow> \<not> stale t n \<longrightarrow> Refresh D c t = Returned u \<longrightarrow>
            (\<forall>m \<in> set (parsed D c hs). Filename m = Filename n \<longrightarrow> ModifiedTime m \<le> ModifiedTime n) \<longrightarrow>
            u (Filename n) = Some n)"
proof (intro conjI allI impI)
  let ?ns = "parsed D c hs"
  have nil: "\<forall>a \<in> set ?ns. Children a = None" by (simp add: parsed_nil_children)
  have r: "Refresh D c t = (case steps ?ns t of None \<Rightarrow> Panicked | Some t' \<Rightarrow> Returned t')"
    by (rule Refresh_steps [OF assms(1,3)])
  from assms(2,3) have "distinct (map string_of hs')"
    by (metis mset_map mset_eq_imp_distinct_iff)
  then have "Refresh D (c\<lparr>ListFiles := Some hs'\<rparr>) t
      = (case steps (parsed D c hs') t of None \<Rightarrow> Panicked | Some t' \<Rightarrow> Returned t')"
    using Refresh_steps [of "c\<lparr>ListFiles := Some hs'\<rparr>" hs' D t] by (simp add: parsed_client)
  moreover have "steps (parsed D c hs') t = steps ?ns t"
    using parsed_mset [OF assms(2)] assms(4) nil by (rule steps_permute)
  ultimately show "Refresh D (c\<lparr>ListFiles := Some hs'\<rparr>) t = Refresh D c t" using r by simp
next
  fix n :: Node and u :: nodes
  let ?ns = "parsed D c hs"
  let ?p = "Filename n"
  assume n: "n \<in> set ?ns" and fresh: "\<not> stale t n" and ret: "Refresh D c t = Returned u"
    and latest: "\<forall>m \<in> set ?ns. Filename m = ?p \<longrightarrow> ModifiedTime m \<le> ModifiedTime n"
  have nil: "\<forall>a \<in> set ?ns. Children a = None" by (simp add: parsed_nil_children)
  from n obtain xs ys where ns: "?ns = xs @ n # ys" by (auto dest: split_list)
  then have "mset ((xs @ ys) @ [n]) = mset ?ns" by simp
  then have "steps ((xs @ ys) @ [n]) t = steps ?ns t"
    using assms(4) nil by (rule steps_permute)
  moreover from ret have "steps ?ns t = Some u"
    by (simp add: Refresh_steps [OF assms(1,3)] split: option.splits)
  ultimately have "Option.bind (steps (xs @ ys) t) (steps [n]) = Some u"
    by (simp only: steps_append [of "xs @ ys" "[n]"])
  then obtain v where v: "steps (xs @ ys) t = Some v" and s: "step n v = Some u"
    by (auto split: option.splits bind_splits)
  have "ModifiedTime m \<le> ModifiedTime n" if "v ?p = Some m" for m
  proof (rule steps_time_bound [OF v _ _ that])
    show "\<forall>m \<in> set (xs @ ys). Children m = None \<and> (Filename m = ?p \<longrightarrow> ModifiedTime m \<le> ModifiedTime n) \<and>
        (Filename m \<noteq> ?p \<longrightarrow> ?p \<notin> set (ancestors (Filename m)))"
    proof
      fix m assume "m \<in> set (xs @ ys)"
      then have m: "m \<in> set ?ns" by (auto simp: ns)
      with assms(4) n have "compatible n m" by blast
      then have "Filename m \<noteq> ?p \<longrightarrow> ?p \<notin> set (ancestors (Filename m))"
        by (auto simp: compatible_def split: if_splits)
      with m nil latest show "Children m = None \<and> (Filename m = ?p \<longrightarrow> ModifiedTime m \<le> ModifiedTime n) \<and>
        (Filename m \<noteq> ?p \<longrightarrow> ?p \<notin> set (ancestors (Filename m)))" by blast
    qed
    show "\<forall>m0. t ?p = Some m0 \<longrightarrow> ModifiedTime m0 \<le> ModifiedTime n"
      using fresh by (auto simp: stale_def After_def)
  qed
  then have "\<not> stale v n" by (auto simp: stale_def After_def split: option.splits)
  with s have "install n v = Some u" by (simp add: step_def)
  with nil n show "u ?p = Some n" by (auto intro: install_at)
qed

theorem pass_order_irrelevant_witness:
  "Refresh demo_FromJSON (demo_client [Some [3], Some [6], Some [1]]) initial_nodes
     = Refresh demo_FromJSON (demo_client [Some [1], Some [3], Some [6]]) initial_nodes \<and>
   node_after (Refresh demo_FromJSON (demo_client [Some [1], Some [3], Some [6]]) initial_nodes) ''a''
     = Some (node_of \<lparr>file_Filename = ''a'', file_Filesize = 30, file_ModifiedTime = 7\<rparr> (Some [3])) \<and>
   node_after (Refresh demo_FromJSON (demo_client [Some [3], Some [6], Some [1]]) initial_nodes) ''a''
     = Some (node_of \<lparr>file_Filename = ''a'', file_Filesize = 30, file_ModifiedTime = 7\<rparr> (Some [3]))"
proof -
  let ?hs = "[Some [1], Some [3], Some [6 :: 8 word]]"
  let ?hs' = "[Some [3], Some [6], Some [1 :: 8 word]]"
  let ?c = "demo_client ?hs"
  let ?n1 = "node_of \<lparr>file_Filename = ''a'', file_Filesize = 10, file_ModifiedTime = 5\<rparr> (Some [1])"
  let ?n3 = "node_of \<lparr>file_Filename = ''a'', file_Filesize = 30, file_ModifiedTime = 7\<rparr> (Some [3])"
  let ?n6 = "node_of \<lparr>file_Filename = ''d'', file_Filesize = 60, file_ModifiedTime = 3\<rparr> (Some [6])"
  have l: "ListFiles ?c = Some ?hs" by (simp add: demo_client_def)
  have m: "mset ?hs' = mset ?hs" by simp
  have d: "distinct (map string_of ?hs)" by (simp add: string_of_def)
  have p: "parsed demo_FromJSON ?c ?hs = [?n1, ?n3, ?n6]"
    by (simp add: parsed_def map_filter_def fetched_def demo_client_def demo_FromJSON_def)
  have cp: "\<forall>n1 \<in> set (parsed demo_FromJSON ?c ?hs). \<forall>n2 \<in> set (parsed demo_FromJSON ?c ?hs). compatible n1 n2"
    unfolding p by (simp add: compatible_def ancestors_demo node_of_def)
  have c': "?c\<lparr>ListFiles := Some ?hs'\<rparr> = demo_client ?hs'" by (simp add: demo_client_def)
  have ret: "Refresh demo_FromJSON ?c initial_nodes
      = Returned (result_nodes (Refresh demo_FromJSON ?c initial_nodes))"
    by (simp add: run_simps)
  have fresh: "\<not> stale initial_nodes ?n3" by (simp add: stale_def initial_nodes_def)
  have latest: "\<forall>m \<in> set (parsed demo_FromJSON ?c ?hs). Filename m = Filename ?n3 \<longrightarrow> ModifiedTime m \<le> ModifiedTime ?n3"
    unfolding p by simp
  note inst = pass_order_irrelevant [OF l m d cp, of initial_nodes, unfolded c']
  from inst have 1: "Refresh demo_FromJSON (demo_client ?hs') initial_nodes = Refresh demo_FromJSON ?c initial_nodes"
    by (rule conjunct1)
  from inst ret fresh latest have "result_nodes (Refresh demo_FromJSON ?c initial_nodes) (Filename ?n3) = Some ?n3"
    unfolding p by (metis list.set_intros(1) list.set_intros(2))
  then have 2: "node_after (Refresh demo_FromJSON ?c initial_nodes) ''a'' = Some ?n3"
    by (subst ret) simp
  from 1 2 show ?thesis by simp
qed

text \<open>
  Claim C2 as stated fails: the two records of \<open>a\<close> with the same modified time 5 are
  resolved by arrival order. Listed as \<open>[1], [2]\<close> they leave the hash \<open>[2]\<close> at \<open>a\<close>, listed
  as \<open>[2], [1]\<close> they leave the hash \<open>[1]\<close>. The order also decides for colliding paths: the
  records \<open>a/b\<close> and \<open>a\<close> give a tree in this order and a panic in the other.
\<close>

theorem arrival_order_decides:
  "map_option Sha256sum (node_after (NewTree demo_FromJSON (demo_client [Some [1], Some [2]])) ''a'')
     = Some (Some [2]) \<and>
   map_option Sha256sum (node_after (NewTree demo_FromJSON (demo_client [Some [2], Some [1]])) ''a'')
     = Some (Some [1]) \<and>
   NewTree demo_FromJSON (demo_client [Some [4], Some [1]])
     = Returned (result_nodes (NewTree demo_FromJSON (demo_client [Some [4], Some [1]]))) \<and>
   NewTree demo_FromJSON (demo_client [Some [1], Some [4]]) = Panicked"
  by (simp add: run_simps)

subsection \<open>A second pass over the same listing\<close>

lemma HasChild_registered: "HasChild t d f \<Longrightarrow> register_child t d f = Some t"
proof -
  assume "HasChild t d f"
  then obtain n cs where n: "t d = Some n" "Children n = Some cs" "cs f = Some True"
    by (auto simp: HasChild_def split: option.splits)
  then have e: "cs(f \<mapsto> True) = cs" by (simp add: fun_upd_idem_iff)
  from n(2) have "n\<lparr>Children := Some cs\<rparr> = n" by (cases n) auto
  then have "n\<lparr>Children := Some (cs(f \<mapsto> True))\<rparr> = n" by (simp only: e)
  moreover from n(1) have "t(d \<mapsto> n) = t" by (simp add: fun_upd_idem_iff)
  ultimately have "t(d \<mapsto> n\<lparr>Children := Some (cs(f \<mapsto> True))\<rparr>) = t" by (simp only:)
  with n(1,2) show ?thesis by (simp only: register_child_def option.case)
qed

text \<open>For a linked path \<open>addParents\<close> changes nothing.\<close>

lemma linked_addParents: "linked t p \<Longrightarrow> addParents p t = Some t"
proof (induction t p rule: linked.induct)
  case (1 t filepath)
  obtain dir f where pf: "parent_of filepath = (dir, f)" by (cases "parent_of filepath")
  from 1(2) have h: "HasChild t dir f" by (simp add: linked_unfold [OF pf])
  show ?case
  proof (cases "dir = ''/''")
    case True
    with HasChild_registered [OF h] show ?thesis by (simp add: addParents_unfold [OF pf])
  next
    case False
    with 1(2) have "linked t dir" by (simp add: linked_unfold [OF pf])
    from 1(1) [OF pf [symmetric] False this] HasChild_registered [OF h] False
    show ?thesis by (simp add: addParents_unfold [OF pf])
  qed
qed

lemma step_absorbed:
  assumes "mset (xs @ [x]) = mset ns" and "steps ns t = Some u"
    and "\<forall>a \<in> set ns. \<forall>b \<in> set ns. compatible a b" and "\<forall>a \<in> set ns. Children a = None"
  shows "step x u = Some u"
proof -
  from assms(1) have "x \<in> set ns" by (metis in_set_conv_decomp mset_eq_setD)
  with assms(4) have nil: "Children x = None" by simp
  from steps_permute [OF assms(1,3,4), of t] assms(2)
  have "Option.bind (steps xs t) (steps [x]) = Some u" by (simp only: steps_append)
  then obtain v where v: "steps xs t = Some v" and s: "step x v = Some u"
    by (auto split: option.splits bind_splits)
  from s show ?thesis
  proof (cases rule: step_cases)
    case skipped
    then show ?thesis by (simp add: step_def)
  next
    case installed
    let ?p = "Filename x"
    from install_at [OF nil installed(2)] have at: "u ?p = Some x" .
    then have "u(?p \<mapsto> x) = u" by (auto simp: fun_upd_idem_iff)
    moreover from install_linked [OF installed(2)] have "addParents ?p u = Some u"
      by (rule linked_addParents)
    ultimately have "install x u = Some u" by (simp add: install_def)
    moreover from at have "\<not> stale u x" by (simp add: stale_def After_def)
    ultimately show ?thesis by (simp add: step_def)
  qed
qed

lemma steps_fixed: "\<forall>x \<in> set xs. step x u = Some u \<Longrightarrow> steps xs u = Some u"
  by (induction xs) auto

lemma steps_twice:
  assumes "steps ns t = Some u"
    and "\<forall>a \<in> set ns. \<forall>b \<in> set ns. compatible a b" and "\<forall>a \<in> set ns. Children a = None"
  shows "steps ns u = Some u"
proof -
  have "step x u = Some u" if "x \<in> set ns" for x
  proof -
    from that obtain xs ys where "ns = xs @ x # ys" by (auto dest: split_list)
    then have "mset ((xs @ ys) @ [x]) = mset ns" by simp
    from step_absorbed [OF this assms] show ?thesis .
  qed
  then show ?thesis by (intro steps_fixed) simp
qed

text \<open>On one path, an iteration is absorbed by the next one when that is for a record at least as late,\<close>

lemma step_absorbed_before:
  assumes p: "Filename x = Filename y" and le: "ModifiedTime x \<le> ModifiedTime y"
    and nil: "Children x = None" "Children y = None"
  shows "Option.bind (step x t) (step y) = step y t"
proof (cases "stale t y")
  case True
  with p le have "stale t x" by (auto simp: stale_def After_def split: option.splits)
  with True show ?thesis by (simp add: step_def)
next
  case ny: False
  show ?thesis
  proof (cases "stale t x")
    case True
    then show ?thesis by (simp add: step_def)
  next
    case False
    have "Option.bind (install x t) (step y) = Option.bind (install x t) (install y)"
    proof (cases "install x t")
      case None
      then show ?thesis by simp
    next
      case (Some u)
      from stale_after_install_same [OF Some nil(1) p [symmetric]] le
      have "\<not> stale u y" by simp
      with Some show ?thesis by (simp add: step_def)
    qed
    with install_install [OF p nil, of t] False ny show ?thesis by (simp add: step_def)
  qed
qed

text \<open>and by the one before it when that is for a strictly later record.\<close>

lemma step_absorbed_after:
  assumes p: "Filename x = Filename y" and lt: "ModifiedTime x < ModifiedTime y"
    and nil: "Children y = None"
  shows "Option.bind (step y t) (step x) = step y t"
proof (cases "stale t y")
  case True
  with p lt have "stale t x" by (auto simp: stale_def After_def split: option.splits)
  with True show ?thesis by (simp add: step_def)
next
  case False
  show ?thesis
  proof (cases "install y t")
    case None
    with False show ?thesis by (simp add: step_def)
  next
    case (Some u)
    with stale_after_install_same [OF Some nil p] lt False show ?thesis by (simp add: step_def)
  qed
qed

lemma steps_absorbed_before:
  assumes "\<forall>x \<in> set xs. Filename x = Filename y \<and> ModifiedTime x \<le> ModifiedTime y \<and> Children x = None"
    and "Children y = None"
  shows "Option.bind (steps xs t) (step y) = step y t"
  using assms(1)
proof (induction xs rule: rev_induct)
  case Nil
  show ?case by simp
next
  case (snoc x xs)
  have "Option.bind (steps (xs @ [x]) t) (step y)
      = Option.bind (steps xs t) (\<lambda>u. Option.bind (step x u) (step y))"
    by (cases "steps xs t") (simp_all add: steps_append split: option.splits)
  also have "(\<lambda>u. Option.bind (step x u) (step y)) = step y"
  proof (rule ext)
    fix u
    from snoc.prems have "Filename x = Filename y" "ModifiedTime x \<le> ModifiedTime y" "Children x = None"
      by simp_all
    then show "Option.bind (step x u) (step y) = step y u"
      using assms(2) by (rule step_absorbed_before)
  qed
  also have "Option.bind (steps xs t) (step y) = step y t"
    using snoc.prems by (intro snoc.IH) simp
  finally show ?case .
qed

lemma steps_absorbed_after:
  assumes "\<forall>x \<in> set xs. Filename x = Filename y \<and> ModifiedTime x < ModifiedTime y"
    and "Children y = None"
  shows "Option.bind (step y t) (steps xs) = step y t"
  using assms(1)
proof (induction xs)
  case Nil
  show ?case by (cases "step y t") simp_all
next
  case (Cons x xs)
  have "Option.bind (step y t) (steps (x # xs))
      = Option.bind (Option.bind (step y t) (step x)) (steps xs)"
    by (cases "step y t") (simp_all split: option.splits)
  also have "Option.bind (step y t) (step x) = step y t"
  proof -
    from Cons.prems have "Filename x = Filename y" "ModifiedTime x < ModifiedTime y" by simp_all
    then show ?thesis using assms(2) by (rule step_absorbed_after)
  qed
  also have "Option.bind (step y t) (steps xs) = step y t"
    using Cons.prems by (intro Cons.IH) simp
  finally show ?case .
qed

text \<open>A list of records has a last record of the latest modified time.\<close>

lemma latest_record:
  "xs \<noteq> [] \<Longrightarrow>
   \<exists>ys w zs. xs = ys @ w # zs \<and> (\<forall>y \<in> set ys. ModifiedTime y \<le> ModifiedTime w) \<and>
     (\<forall>z \<in> set zs. ModifiedTime z < ModifiedTime w)"
proof (induction xs)
  case Nil
  then show ?case by simp
next
  case (Cons x xs)
  show ?case
  proof (cases "xs = []")
    case True
    show ?thesis
    proof (intro exI conjI)
      show "x # xs = [] @ x # []" using True by simp
      show "\<forall>y \<in> set []. ModifiedTime y \<le> ModifiedTime x" by simp
      show "\<forall>z \<in> set []. ModifiedTime z < ModifiedTime x" by simp
    qed
  next
    case False
    from Cons.IH [OF this] obtain ys w zs where xs: "xs = ys @ w # zs"
      and ys: "\<forall>y \<in> set ys. ModifiedTime y \<le> ModifiedTime w"
      and zs: "\<forall>z \<in> set zs. ModifiedTime z < ModifiedTime w" by blast
    show ?thesis
    proof (cases "ModifiedTime x \<le> ModifiedTime w")
      case True
      show ?thesis
      proof (intro exI conjI)
        show "x # xs = (x # ys) @ w # zs" using xs by simp
        show "\<forall>y \<in> set (x # ys). ModifiedTime y \<le> ModifiedTime w" using ys True by simp
        show "\<forall>z \<in> set zs. ModifiedTime z < ModifiedTime w" by (rule zs)
      qed
    next
      case False
      have lt: "\<forall>z \<in> set xs. ModifiedTime z < ModifiedTime x"
      proof
        fix z assume "z \<in> set xs"
        with xs ys zs have "ModifiedTime z \<le> ModifiedTime w" by fastforce
        with False show "ModifiedTime z < ModifiedTime x" by simp
      qed
      show ?thesis
      proof (intro exI conjI)
        show "x # xs = [] @ x # xs" by simp
        show "\<forall>y \<in> set []. ModifiedTime y \<le> ModifiedTime x" by simp
        show "\<forall>z \<in> set xs. ModifiedTime z < ModifiedTime x" by (rule lt)
      qed
    qed
  qed
qed

text \<open>The iterations for the records of one path do what the iteration for the latest of them does.\<close>

lemma steps_one_path:
  assumes "xs \<noteq> []" and "\<forall>x \<in> set xs. Filename x = p \<and> Children x = None"
  shows "\<exists>w \<in> set xs. \<forall>t. steps xs t = step w t"
proof -
  from latest_record [OF assms(1)] obtain ys w zs where xs: "xs = ys @ w # zs"
    and ys: "\<forall>y \<in> set ys. ModifiedTime y \<le> ModifiedTime w"
    and zs: "\<forall>z \<in> set zs. ModifiedTime z < ModifiedTime w" by blast
  from xs assms(2) have w: "Filename w = p" "Children w = None" by auto
  have "steps xs t = step w t" for t
  proof -
    have "steps xs t = Option.bind (Option.bind (steps ys t) (step w)) (steps zs)"
      unfolding xs by (cases "steps ys t") (simp_all add: steps_append split: option.splits)
    also have "Option.bind (steps ys t) (step w) = step w t"
      using ys assms(2) w xs by (intro steps_absorbed_before) auto
    also have "Option.bind (step w t) (steps zs) = step w t"
      using zs assms(2) w xs by (intro steps_absorbed_after) auto
    finally show ?thesis .
  qed
  with xs show ?thesis by auto
qed

lemma steps_steps_commute:
  assumes "\<forall>x \<in> set xs. \<forall>y \<in> set ys. compatible y x \<and> Children x = None \<and> Children y = None"
  shows "Option.bind (steps xs t) (steps ys) = Option.bind (steps ys t) (steps xs)"
  using assms
proof (induction ys arbitrary: t)
  case Nil
  show ?case by (cases "steps xs t") simp_all
next
  case (Cons y ys)
  show ?case
  proof (cases "xs = []")
    case True
    then show ?thesis by (cases "steps (y # ys) t") simp_all
  next
    case False
    with Cons.prems have ny: "Children y = None" by (cases xs) auto
    have "Option.bind (steps xs t) (steps (y # ys))
        = Option.bind (Option.bind (steps xs t) (step y)) (steps ys)"
      by (cases "steps xs t") (simp_all split: option.splits)
    also have "Option.bind (steps xs t) (step y) = Option.bind (step y t) (steps xs)"
      using Cons.prems ny by (intro steps_step_commute) auto
    also have "Option.bind (Option.bind (step y t) (steps xs)) (steps ys)
        = Option.bind (step y t) (\<lambda>u. Option.bind (steps xs u) (steps ys))"
      by (simp add: Option.bind_assoc)
    also have "\<dots> = Option.bind (step y t) (\<lambda>u. Option.bind (steps ys u) (steps xs))"
      using Cons.IH Cons.prems by simp
    also have "\<dots> = Option.bind (steps (y # ys) t) (steps xs)"
      by (cases "step y t") simp_all
    finally show ?thesis .
  qed
qed

text \<open>The records of one path can be taken first.\<close>

lemma steps_partition:
  assumes "\<forall>x \<in> set ns. \<forall>y \<in> set ns. Filename x = p \<longrightarrow> Filename y \<noteq> p \<longrightarrow> compatible y x"
    and "\<forall>x \<in> set ns. Children x = None"
  shows "steps ns t = steps (filter (\<lambda>n. Filename n = p) ns @ filter (\<lambda>n. Filename n \<noteq> p) ns) t"
  using assms
proof (induction ns arbitrary: t)
  case Nil
  show ?case by simp
next
  case (Cons x ns)
  let ?G = "filter (\<lambda>n. Filename n = p) ns" and ?R = "filter (\<lambda>n. Filename n \<noteq> p) ns"
  have IH: "steps ns u = steps (?G @ ?R) u" for u
    using Cons.prems by (intro Cons.IH) auto
  show ?case
  proof (cases "Filename x = p")
    case True
    then show ?thesis by (cases "step x t") (simp_all add: IH)
  next
    case False
    have "steps (x # ns) t = Option.bind (Option.bind (step x t) (steps ?G)) (steps ?R)"
      by (cases "step x t") (simp_all add: IH steps_append)
    also have "Option.bind (step x t) (steps ?G) = Option.bind (steps ?G t) (step x)"
      using Cons.prems False by (intro steps_step_commute [symmetric]) auto
    also have "Option.bind (Option.bind (steps ?G t) (step x)) (steps ?R) = steps (?G @ x # ?R) t"
      by (cases "steps ?G t") (simp_all add: steps_append split: option.splits)
    finally show ?thesis using False by simp
  qed
qed

text \<open>
  Without collisions, the iterations for a list of records do what the iterations for one
  record of each path do.
\<close>

lemma steps_winners:
  assumes "no_collision (map Filename ns)" and "\<forall>x \<in> set ns. Children x = None"
  shows "\<exists>ws. set ws \<subseteq> set ns \<and> distinct (map Filename ws) \<and> (\<forall>t. steps ns t = steps ws t)"
  using assms
proof (induction "length ns" arbitrary: ns rule: less_induct)
  case less
  show ?case
  proof (cases ns)
    case Nil
    then have "set [] \<subseteq> set ns \<and> distinct (map Filename []) \<and> (\<forall>t. steps ns t = steps [] t)"
      by simp
    then show ?thesis by blast
  next
    case (Cons x xs)
    let ?p = "Filename x"
    let ?G = "filter (\<lambda>n. Filename n = ?p) ns" and ?R = "filter (\<lambda>n. Filename n \<noteq> ?p) ns"
    have cross: "compatible a b" if "a \<in> set ns" "b \<in> set ns" "Filename a \<noteq> Filename b" for a b
      using that no_collisionD [OF less.prems(1), of "Filename a" "Filename b"]
        no_collisionD [OF less.prems(1), of "Filename b" "Filename a"]
      by (auto simp: compatible_def)
    have part: "steps ns t = Option.bind (steps ?G t) (steps ?R)" for t
    proof -
      have "steps ns t = steps (?G @ ?R) t"
        using less.prems(2) cross by (intro steps_partition) auto
      then show ?thesis by (simp add: steps_append)
    qed
    from Cons have "?G \<noteq> []" by simp
    moreover have "\<forall>g \<in> set ?G. Filename g = ?p \<and> Children g = None"
      using less.prems(2) by auto
    ultimately obtain w where w: "w \<in> set ?G" and one: "\<forall>t. steps ?G t = step w t"
      using steps_one_path [of ?G ?p] by blast
    from Cons have "length ?R < length ns"
      by (simp add: le_imp_less_Suc)
    moreover have "no_collision (map Filename ?R)"
      using less.prems(1) by (auto simp: no_collision_def)
    moreover have "\<forall>x \<in> set ?R. Children x = None" using less.prems(2) by auto
    ultimately obtain ws where ws: "set ws \<subseteq> set ?R" "distinct (map Filename ws)"
      "\<forall>t. steps ?R t = steps ws t" using less.hyps [of ?R] by blast
    from w ws(1) have "Filename w \<notin> Filename ` set ws" by auto
    with ws(2) have "distinct (map Filename (w # ws))" by simp
    moreover from w ws(1) have "set (w # ws) \<subseteq> set ns" by auto
    moreover have "steps ns t = steps (w # ws) t" for t
    proof -
      have "steps ns t = Option.bind (step w t) (steps ?R)" by (simp add: part one)
      also have "\<dots> = steps (w # ws) t"
        using ws(3) by (cases "step w t") simp_all
      finally show ?thesis .
    qed
    ultimately show ?thesis by blast
  qed
qed

text \<open>
  A second pass over the same listing, when the hashes are distinct and no record's path is a
  directory above a record's path, returns the map that the first pass returned.
\<close>

lemma Refresh_again:
  assumes "ListFiles c = Some hs" and "distinct (map string_of hs)"
    and "no_collision (paths_of D c)" and "Refresh D c t = Returned u"
  shows "Refresh D c u = Returned u"
proof -
  let ?ns = "parsed D c hs"
  have nil: "\<forall>a \<in> set ?ns. Children a = None" by (simp add: parsed_nil_children)
  from assms(1,3) have nc: "no_collision (map Filename ?ns)" by (simp add: paths_of_def)
  from steps_winners [OF nc nil] obtain ws where ws: "set ws \<subseteq> set ?ns"
    "distinct (map Filename ws)" "\<forall>t. steps ?ns t = steps ws t" by blast
  from assms(4) have "steps ?ns t = Some u"
    by (simp add: Refresh_steps [OF assms(1,2)] split: option.splits)
  with ws(3) have st: "steps ws t = Some u" by simp
  have "compatible a b" if "a \<in> set ws" "b \<in> set ws" for a b
  proof (cases "Filename a = Filename b")
    case True
    with ws(2) that have "a = b" by (auto simp: distinct_map dest: inj_onD)
    then show ?thesis by (simp add: compatible_def)
  next
    case False
    from that ws(1) have "Filename a \<in> set (map Filename ?ns)" "Filename b \<in> set (map Filename ?ns)"
      by auto
    with False no_collisionD [OF nc] show ?thesis by (simp add: compatible_def)
  qed
  moreover from ws(1) nil have "\<forall>a \<in> set ws. Children a = None" by auto
  ultimately have "steps ws u = Some u" using steps_twice [OF st] by blast
  with ws(3) have "steps ?ns u = Some u" by simp
  then show ?thesis by (simp add: Refresh_steps [OF assms(1,2)])
qed

text \<open>
  Claim C7. Over the records \<open>a/b\<close> and \<open>a\<close>, listed in this order, the first pass returns
  and the second pass over the same listing panics: the first pass leaves the file node
  \<open>a\<close> with a nil \<open>Children\<close> map, and the second one registers \<open>b\<close> under it again.
\<close>

theorem second_pass_panics:
  "NewTree demo_FromJSON (demo_client [Some [4], Some [1]])
     = Returned (result_nodes (NewTree demo_FromJSON (demo_client [Some [4], Some [1]]))) \<and>
   Refresh demo_FromJSON (demo_client [Some [4], Some [1]])
     (result_nodes (NewTree demo_FromJSON (demo_client [Some [4], Some [1]]))) = Panicked"
  by (simp add: run_simps)

end
